theory Spec2Isabelle
  imports Complex_Main "HOL-Library.Sublist" "HOL-Library.Code_Target_Numeral"
begin

section \<open>Strings of the source language\<close>

text \<open>
  A JavaScript string is a sequence of code units. The model uses \<^typ>\<open>string\<close>, whose
  characters are 8-bit: it covers the strings whose code units lie below 256 (ASCII and
  the Latin-1 supplement). Every literal and every pattern of the component is ASCII.
\<close>

definition isWhiteSpace :: "char \<Rightarrow> bool" where
  \<comment> \<open>WhiteSpace and LineTerminator of ECMAScript, below 256: TAB, LF, VT, FF, CR, SP, NBSP.\<close>
  "isWhiteSpace c \<longleftrightarrow> (of_char c :: nat) \<in> {9, 10, 11, 12, 13, 32, 160}"

definition isDigit :: "char \<Rightarrow> bool" where
  "isDigit c \<longleftrightarrow> 48 \<le> (of_char c :: nat) \<and> (of_char c :: nat) \<le> 57"

definition digitVal :: "char \<Rightarrow> nat" where
  "digitVal c = of_char c - 48"

definition toLowerChar :: "char \<Rightarrow> char" where
  \<comment> \<open>A-Z, and the Latin-1 capitals 0xC0-0xDE without the multiplication sign 0xD7.\<close>
  "toLowerChar c =
     (let n = (of_char c :: nat)
      in if (65 \<le> n \<and> n \<le> 90) \<or> (192 \<le> n \<and> n \<le> 222 \<and> n \<noteq> 215) then char_of (n + 32) else c)"

definition toLowerCase :: "string \<Rightarrow> string" where
  "toLowerCase s = map toLowerChar s"

definition canonicalize :: "char \<Rightarrow> char" where
  \<comment> \<open>Canonicalize of a case-insensitive pattern without the u flag: the upper-case form when
      it is one code unit and does not turn a non-ASCII character into an ASCII one. The
      upper-case forms of 0xB5 and 0xFF lie above 255 and are shared with no character below
      256, and 0xDF has none of one code unit: the three stay as they are.\<close>
  "canonicalize c =
     (let n = (of_char c :: nat)
      in if (97 \<le> n \<and> n \<le> 122) \<or> (224 \<le> n \<and> n \<le> 254 \<and> n \<noteq> 247) then char_of (n - 32) else c)"

fun str_includes :: "string \<Rightarrow> string \<Rightarrow> bool" where
  "str_includes [] t = (t = [])"
| "str_includes (c # s) t = (prefix t (c # s) \<or> str_includes s t)"

fun split_on :: "char \<Rightarrow> string \<Rightarrow> string list" where
  \<comment> \<open>\<^verbatim>\<open>s.split(sep)\<close> for a separator of one character: never the empty array.\<close>
  "split_on sep [] = [[]]"
| "split_on sep (c # s) =
     (if c = sep then [] # split_on sep s
      else (case split_on sep s of [] \<Rightarrow> [[c]] | t # ts \<Rightarrow> (c # t) # ts))"

definition trim :: "string \<Rightarrow> string" where
  "trim s = rev (dropWhile isWhiteSpace (rev (dropWhile isWhiteSpace s)))"

text \<open>
  The operator \<^verbatim>\<open>||\<close> on strings: the left operand when it is truthy (defined and not
  empty), the right operand otherwise. A missing property reads as \<^verbatim>\<open>undefined\<close>,
  here \<^term>\<open>None\<close>.
\<close>

definition truthy :: "string option \<Rightarrow> bool" where
  "truthy v \<longleftrightarrow> (case v of None \<Rightarrow> False | Some s \<Rightarrow> s \<noteq> [])"

definition or_opt :: "string option \<Rightarrow> string option \<Rightarrow> string option" where
  "or_opt v w = (if truthy v then v else w)"

definition or_str :: "string option \<Rightarrow> string \<Rightarrow> string" where
  "or_str v d = (case v of None \<Rightarrow> d | Some s \<Rightarrow> if s = [] then d else s)"

section \<open>Regular expressions\<close>

text \<open>
  The patterns of the component are sequences of character classes, single-class
  quantifiers (greedy and lazy), capture groups, one optional group and the two anchors.
  \<open>run\<close> is the backtracking matcher of ECMAScript on that fragment: the pattern still to
  match is the continuation, alternatives are tried in priority order and the first
  success is the result.
\<close>

datatype cls = Lit char | Any | Space | Digit

datatype quant = Greedy | Lazy

datatype node =
    One cls
  | Star quant cls
  | Opt "node list"
  | Open nat
  | Close nat
  | Bol
  | Eol

fun accepts :: "bool \<Rightarrow> cls \<Rightarrow> char \<Rightarrow> bool" where
  "accepts ci (Lit p) c = (if ci then canonicalize p = canonicalize c else p = c)"
| "accepts ci Any c = (c \<noteq> CHR 0x0A \<and> c \<noteq> CHR 0x0D)"
| "accepts ci Space c = isWhiteSpace c"
| "accepts ci Digit c = isDigit c"

fun node_weight :: "node \<Rightarrow> nat" where
  "node_weight (Opt ns) = Suc (sum_list (map node_weight ns))"
| "node_weight (One c) = 1"
| "node_weight (Star q c) = 1"
| "node_weight (Open g) = 1"
| "node_weight (Close g) = 1"
| "node_weight Bol = 1"
| "node_weight Eol = 1"

type_synonym captures = "(nat \<times> string) list"

function (sequential) run ::
  "bool \<Rightarrow> string \<Rightarrow> node list \<Rightarrow> nat \<Rightarrow> string \<Rightarrow> (nat \<times> nat) list \<Rightarrow> captures
     \<Rightarrow> (nat \<times> captures) option" where
  "run ci inp [] pos s opens caps = Some (pos, caps)"
| "run ci inp (One c # k) pos [] opens caps = None"
| "run ci inp (One c # k) pos (x # s) opens caps =
     (if accepts ci c x then run ci inp k (Suc pos) s opens caps else None)"
| "run ci inp (Star Greedy c # k) pos [] opens caps = run ci inp k pos [] opens caps"
| "run ci inp (Star Greedy c # k) pos (x # s) opens caps =
     (if accepts ci c x
      then (case run ci inp (Star Greedy c # k) (Suc pos) s opens caps of
              Some r \<Rightarrow> Some r
            | None \<Rightarrow> run ci inp k pos (x # s) opens caps)
      else run ci inp k pos (x # s) opens caps)"
| "run ci inp (Star Lazy c # k) pos [] opens caps = run ci inp k pos [] opens caps"
| "run ci inp (Star Lazy c # k) pos (x # s) opens caps =
     (case run ci inp k pos (x # s) opens caps of
        Some r \<Rightarrow> Some r
      | None \<Rightarrow> if accepts ci c x then run ci inp (Star Lazy c # k) (Suc pos) s opens caps
                else None)"
| "run ci inp (Opt ns # k) pos s opens caps =
     (case run ci inp (ns @ k) pos s opens caps of
        Some r \<Rightarrow> Some r
      | None \<Rightarrow> run ci inp k pos s opens caps)"
| "run ci inp (Open g # k) pos s opens caps = run ci inp k pos s ((g, pos) # opens) caps"
| "run ci inp (Close g # k) pos s opens caps =
     (let b = (case map_of opens g of None \<Rightarrow> pos | Some b \<Rightarrow> b)
      in run ci inp k pos s opens ((g, take (pos - b) (drop b inp)) # caps))"
| "run ci inp (Bol # k) pos s opens caps = (if pos = 0 then run ci inp k pos s opens caps else None)"
| "run ci inp (Eol # k) pos s opens caps = (if s = [] then run ci inp k pos s opens caps else None)"
  by pat_completeness auto
termination
  by (relation "inv_image (less_than <*lex*> less_than)
        (\<lambda>(ci, inp, ns, pos, s, opens, caps). (length s, sum_list (map node_weight ns)))") auto

fun search ::
  "bool \<Rightarrow> node list \<Rightarrow> string \<Rightarrow> nat \<Rightarrow> string \<Rightarrow> (nat \<times> nat \<times> captures) option" where
  \<comment> \<open>The start positions are tried from the left; \<open>s\<close> is the input from \<open>pos\<close> on.\<close>
  "search ci pat inp pos s =
     (case run ci inp pat pos s [] [] of
        Some (e, caps) \<Rightarrow> Some (pos, e, caps)
      | None \<Rightarrow> (case s of [] \<Rightarrow> None | x # s' \<Rightarrow> search ci pat inp (Suc pos) s'))"

definition match :: "bool \<Rightarrow> node list \<Rightarrow> string \<Rightarrow> captures option" where
  \<comment> \<open>\<^verbatim>\<open>s.match(re)\<close> for a pattern without the g flag: the groups, or null.\<close>
  "match ci pat s = (case search ci pat s 0 s of None \<Rightarrow> None | Some (b, e, caps) \<Rightarrow> Some caps)"

definition group_of :: "nat \<Rightarrow> captures option \<Rightarrow> string option" where
  \<comment> \<open>\<^verbatim>\<open>m?.[i]\<close>\<close>
  "group_of i m = (case m of None \<Rightarrow> None | Some caps \<Rightarrow> map_of caps i)"

definition replace :: "bool \<Rightarrow> node list \<Rightarrow> string \<Rightarrow> string \<Rightarrow> string" where
  \<comment> \<open>\<^verbatim>\<open>s.replace(re, repl)\<close>, no g flag, \<open>repl\<close> without \<^verbatim>\<open>$\<close>: the first match is replaced.\<close>
  "replace ci pat repl s =
     (case search ci pat s 0 s of None \<Rightarrow> s | Some (b, e, caps) \<Rightarrow> take b s @ repl @ drop e s)"

definition lits :: "string \<Rightarrow> node list" where
  "lits s = map (\<lambda>c. One (Lit c)) s"

definition oneOrMore :: "quant \<Rightarrow> cls \<Rightarrow> node list" where
  "oneOrMore q c = [One c, Star q c]"

definition azPattern :: "node list" where
  \<comment> \<open>\<^verbatim>\<open>/^AZ-/\<close>\<close>
  "azPattern = Bol # lits ''AZ-''"

section \<open>Numbers of the source language\<close>

text \<open>
  A Number is an IEEE 754 double: not-a-number, an infinity, or a finite value, which is a
  real number. \<open>fl\<close> rounds a real to the nearest double, ties to the even significand (53
  bits, exponents from -1074, overflow to an infinity from \<open>2 ^ 1024 - 2 ^ 970\<close> on). The two
  zeros are one value \<^term>\<open>Fin 0\<close>: the component never divides by a computed zero and never
  prints a product, the only places that tell them apart.
\<close>

datatype number = NaN | PosInf | NegInf | Fin real

function ilog_hi :: "nat \<Rightarrow> real \<Rightarrow> int" where
  "ilog_hi b q = (if 2 \<le> b \<and> of_nat b \<le> q then ilog_hi b (q / of_nat b) + 1 else 0)"
  by pat_completeness auto
termination
proof (relation "measure (\<lambda>(b, q). nat \<lfloor>q\<rfloor>)")
  fix b :: nat and q :: real
  assume a: "2 \<le> b \<and> of_nat b \<le> q"
  then have b2: "(2::real) \<le> of_nat b" by (metis of_nat_le_iff of_nat_numeral)
  with a have q2: "2 \<le> q" by linarith
  have "q / of_nat b \<le> q / 2" using b2 q2 by (intro divide_left_mono) auto
  moreover have "q / 2 < of_int \<lfloor>q\<rfloor>"
  proof -
    have "1 \<le> \<lfloor>q\<rfloor>" using q2 by linarith
    then have "(1::real) \<le> of_int \<lfloor>q\<rfloor>" by linarith
    moreover have "q < of_int \<lfloor>q\<rfloor> + 1" by linarith
    ultimately show ?thesis by linarith
  qed
  ultimately have "q / of_nat b < of_int \<lfloor>q\<rfloor>" by linarith
  then have "\<lfloor>q / of_nat b\<rfloor> < \<lfloor>q\<rfloor>" by (simp only: floor_less_iff)
  moreover have "0 < \<lfloor>q\<rfloor>" using q2 by linarith
  ultimately show "((b, q / of_nat b), (b, q)) \<in> measure (\<lambda>(b, q). nat \<lfloor>q\<rfloor>)" by simp
qed simp

function ilog_lo :: "nat \<Rightarrow> real \<Rightarrow> int" where
  "ilog_lo b q = (if 2 \<le> b \<and> 0 < q \<and> q < 1 then ilog_lo b (q * of_nat b) - 1 else 0)"
  by pat_completeness auto
termination
proof (relation "measure (\<lambda>(b, q). nat \<lceil>1 / q\<rceil>)")
  fix b :: nat and q :: real
  assume a: "2 \<le> b \<and> 0 < q \<and> q < 1"
  then have b2: "(2::real) \<le> of_nat b" by (metis of_nat_le_iff of_nat_numeral)
  define y where "y = 1 / q"
  have y1: "1 < y" using a by (simp add: y_def)
  have "1 / (q * of_nat b) = y / of_nat b" by (simp add: y_def)
  also have "\<dots> \<le> y / 2" using b2 y1 by (intro divide_left_mono) auto
  also have "\<dots> \<le> of_int (\<lceil>y\<rceil> - 1)"
  proof -
    have "2 \<le> \<lceil>y\<rceil>" using y1 by linarith
    then have "(2::real) \<le> of_int \<lceil>y\<rceil>" by linarith
    moreover have "y \<le> of_int \<lceil>y\<rceil>" by linarith
    ultimately have "y / 2 \<le> of_int \<lceil>y\<rceil> - 1" by linarith
    then show ?thesis by (simp only: of_int_diff of_int_1)
  qed
  finally have "1 / (q * of_nat b) \<le> of_int (\<lceil>y\<rceil> - 1)" .
  then have "\<lceil>1 / (q * of_nat b)\<rceil> \<le> \<lceil>y\<rceil> - 1" by (simp only: ceiling_le_iff)
  moreover have "0 < \<lceil>y\<rceil>" using y1 by linarith
  ultimately show "((b, q * of_nat b), (b, q)) \<in> measure (\<lambda>(b, q). nat \<lceil>1 / q\<rceil>)"
    by (simp add: y_def)
qed simp

declare ilog_hi.simps [simp del] ilog_lo.simps [simp del]

definition ilog :: "nat \<Rightarrow> real \<Rightarrow> int" where
  "ilog b q = (if 1 \<le> q then ilog_hi b q else ilog_lo b q)"

definition roundHalfEven :: "real \<Rightarrow> int" where
  "roundHalfEven x =
     (let f = \<lfloor>x\<rfloor>; d = x - of_int f
      in if d < 1 / 2 then f else if 1 / 2 < d then f + 1 else if even f then f else f + 1)"

definition ulpExp :: "real \<Rightarrow> int" where
  \<comment> \<open>the exponent of the last bit of the significand of a double of magnitude \<open>a\<close>\<close>
  "ulpExp a = max (ilog 2 a - 52) (- 1074)"

definition roundMag :: "real \<Rightarrow> real" where
  "roundMag a =
     (if a = 0 then 0 else of_int (roundHalfEven (a / 2 powi ulpExp a)) * 2 powi ulpExp a)"

definition fl :: "real \<Rightarrow> number" where
  "fl q =
     (let r = roundMag \<bar>q\<bar>
      in if 2 ^ 1024 \<le> r then (if 0 < q then PosInf else NegInf)
         else Fin (if q < 0 then - r else r))"

fun num_lt :: "number \<Rightarrow> number \<Rightarrow> bool" where
  "num_lt (Fin a) (Fin b) = (a < b)"
| "num_lt NegInf (Fin b) = True"
| "num_lt NegInf PosInf = True"
| "num_lt (Fin a) PosInf = True"
| "num_lt x y = False"

definition num_le :: "number \<Rightarrow> number \<Rightarrow> bool" where
  "num_le x y \<longleftrightarrow> x \<noteq> NaN \<and> y \<noteq> NaN \<and> (x = y \<or> num_lt x y)"

fun fmul :: "number \<Rightarrow> number \<Rightarrow> number" where
  "fmul NaN y = NaN"
| "fmul x NaN = NaN"
| "fmul (Fin a) (Fin b) = fl (a * b)"
| "fmul (Fin a) y = (if a = 0 then NaN else if (0 < a) = (y = PosInf) then PosInf else NegInf)"
| "fmul x (Fin b) = (if b = 0 then NaN else if (0 < b) = (x = PosInf) then PosInf else NegInf)"
| "fmul x y = (if x = y then PosInf else NegInf)"

fun fdiv :: "number \<Rightarrow> number \<Rightarrow> number" where
  "fdiv NaN y = NaN"
| "fdiv x NaN = NaN"
| "fdiv (Fin a) (Fin b) =
     (if b = 0 then (if a = 0 then NaN else if 0 < a then PosInf else NegInf) else fl (a / b))"
| "fdiv (Fin a) y = Fin 0"
| "fdiv x (Fin b) = (if (0 \<le> b) = (x = PosInf) then PosInf else NegInf)"
| "fdiv x y = NaN"

fun fsub :: "number \<Rightarrow> number \<Rightarrow> number" where
  "fsub NaN y = NaN"
| "fsub x NaN = NaN"
| "fsub (Fin a) (Fin b) = fl (a - b)"
| "fsub (Fin a) PosInf = NegInf"
| "fsub (Fin a) NegInf = PosInf"
| "fsub x (Fin b) = x"
| "fsub x y = (if x = y then NaN else x)"

fun mathRound :: "number \<Rightarrow> number" where
  "mathRound (Fin a) = Fin (of_int \<lfloor>a + 1 / 2\<rfloor>)"
| "mathRound x = x"

definition num_or :: "number \<Rightarrow> number \<Rightarrow> number" where
  "num_or x y = (if x = NaN \<or> x = Fin 0 then y else x)"

definition digitsVal :: "string \<Rightarrow> nat" where
  "digitsVal ds = foldl (\<lambda>a c. 10 * a + digitVal c) 0 ds"

definition parseSign :: "string \<Rightarrow> bool \<times> string" where
  "parseSign s =
     (case s of [] \<Rightarrow> (False, [])
      | c # r \<Rightarrow> if c = CHR ''-'' then (True, r) else if c = CHR ''+'' then (False, r) else (False, s))"

definition parseExponent :: "string \<Rightarrow> int" where
  "parseExponent s =
     (case s of [] \<Rightarrow> 0
      | c # r \<Rightarrow>
          if c = CHR ''e'' \<or> c = CHR ''E''
          then (let (neg, t) = parseSign r; ds = takeWhile isDigit t
                in if ds = [] then 0 else if neg then - int (digitsVal ds) else int (digitsVal ds))
          else 0)"

definition parseFloat :: "string \<Rightarrow> number" where
  "parseFloat inputString =
     (let (neg, u) = parseSign (dropWhile isWhiteSpace inputString)
      in if prefix ''Infinity'' u then (if neg then NegInf else PosInf)
         else (let ip = takeWhile isDigit u;
                   r1 = dropWhile isDigit u;
                   dot = (case r1 of [] \<Rightarrow> False | c # r \<Rightarrow> c = CHR ''.'');
                   fp = (if dot then takeWhile isDigit (tl r1) else []);
                   r2 = (if dot then dropWhile isDigit (tl r1) else r1);
                   mv = of_nat (digitsVal (ip @ fp)) * 10 powi (parseExponent r2 - int (length fp))
               in if ip = [] \<and> fp = [] then NaN else fl (if neg then - mv else mv)))"

definition isHexDigit :: "char \<Rightarrow> bool" where
  "isHexDigit c \<longleftrightarrow> isDigit c \<or> c \<in> set ''abcdefABCDEF''"

definition hexVal :: "char \<Rightarrow> nat" where
  "hexVal c = (if isDigit c then digitVal c else of_char (toLowerChar c) - 87)"

definition parseInt :: "string \<Rightarrow> number" where
  "parseInt inputString =
     (let (neg, u) = parseSign (dropWhile isWhiteSpace inputString);
          hex = (prefix ''0x'' u \<or> prefix ''0X'' u);
          ds = (if hex then takeWhile isHexDigit (drop 2 u) else takeWhile isDigit u);
          v = (if hex then foldl (\<lambda>a c. 16 * a + hexVal c) 0 ds else digitsVal ds)
      in if ds = [] then NaN else fl (if neg then - of_nat v else of_nat v))"

fun showNat :: "nat \<Rightarrow> string" where
  \<comment> \<open>the decimal digits of a natural number\<close>
  "showNat n =
     (if n < 10 then [''0123456789'' ! n] else showNat (n div 10) @ [''0123456789'' ! (n mod 10)])"

declare showNat.simps [simp del]

definition candidates :: "real \<Rightarrow> nat \<Rightarrow> (int \<times> nat) list" where
  "candidates x k =
     [(n, s). n \<leftarrow> [ilog 10 x + 1, ilog 10 x + 2],
              s \<leftarrow> [nat \<lfloor>x / 10 powi (n - int k)\<rfloor>, nat \<lfloor>x / 10 powi (n - int k)\<rfloor> + 1],
              10 ^ (k - 1) \<le> s \<and> s < 10 ^ k \<and> fl (of_nat s * 10 powi (n - int k)) = Fin x]"

definition closer :: "real \<Rightarrow> nat \<Rightarrow> int \<times> nat \<Rightarrow> int \<times> nat \<Rightarrow> int \<times> nat" where
  "closer x k a b =
     (let da = \<bar>of_nat (snd a) * 10 powi (fst a - int k) - x\<bar>;
          db = \<bar>of_nat (snd b) * 10 powi (fst b - int k) - x\<bar>
      in if db < da \<or> (db = da \<and> even (snd b) \<and> odd (snd a)) then b else a)"

fun shortest :: "real \<Rightarrow> nat \<Rightarrow> nat \<Rightarrow> (nat \<times> int \<times> nat) option" where
  "shortest x 0 k = None"
| "shortest x (Suc fuel) k =
     (case candidates x k of
        [] \<Rightarrow> shortest x fuel (Suc k)
      | c # cs \<Rightarrow> Some (k, foldl (closer x k) c cs))"

definition render :: "nat \<Rightarrow> int \<Rightarrow> nat \<Rightarrow> string" where
  "render k n s =
     (let ds = showNat s
      in if - 5 \<le> n \<and> n \<le> 21
         then (if int k \<le> n then ds @ replicate (nat (n - int k)) CHR ''0''
               else if 0 < n then take (nat n) ds @ ''.'' @ drop (nat n) ds
               else ''0.'' @ replicate (nat (- n)) CHR ''0'' @ ds)
         else (let e = n - 1;
                   es = (if e < 0 then ''-'' else ''+'') @ showNat (nat \<bar>e\<bar>)
               in if k = 1 then ds @ ''e'' @ es
                  else take 1 ds @ ''.'' @ drop 1 ds @ ''e'' @ es))"

fun toString :: "number \<Rightarrow> string" where
  "toString NaN = ''NaN''"
| "toString PosInf = ''Infinity''"
| "toString NegInf = ''-Infinity''"
| "toString (Fin x) =
     (if x = 0 then ''0''
      else (if x < 0 then ''-'' else []) @
           (case shortest \<bar>x\<bar> 17 1 of None \<Rightarrow> [] | Some (k, n, s) \<Rightarrow> render k n s))"

declare toString.simps [simp del]

section \<open>The field mapper\<close>

text \<open>
  A parsed CSV row is a JavaScript object keyed by the header names, every value a string
  (the parser runs with \<^verbatim>\<open>dynamicTyping: false\<close>); a column the line is too short for
  is missing.
\<close>

type_synonym raw_row = "string \<rightharpoonup> string"

record cabinet_product =
  wSKU :: string
  vSKU :: string
  brand :: string
  doorStyle :: string
  discount :: number
  costFactor :: number
  assemblyFee :: number
  assemblyCost :: number
  retailPrice :: number
  discountPrice :: number
  height :: number
  width :: number
  weight :: number
  species :: string
  imagePath :: string
  categories :: string
  tags :: string
  publish :: bool

definition namePattern :: "node list" where
  \<comment> \<open>\<^verbatim>\<open>/^(.*?)\s+(.*?\s+.*?)\s+(.*?\s+Cabinet)\s+(.*)$/i\<close>\<close>
  "namePattern =
     [Bol, Open 1, Star Lazy Any, Close 1] @ oneOrMore Greedy Space @
     [Open 2, Star Lazy Any] @ oneOrMore Greedy Space @ [Star Lazy Any, Close 2] @
     oneOrMore Greedy Space @
     [Open 3, Star Lazy Any] @ oneOrMore Greedy Space @ lits ''Cabinet'' @ [Close 3] @
     oneOrMore Greedy Space @
     [Open 4, Star Greedy Any, Close 4, Eol]"

definition sizePattern :: "node list" where
  \<comment> \<open>\<^verbatim>\<open>/(\d+)W\s+X\s+(\d+)H$/i\<close>\<close>
  "sizePattern =
     [Open 1] @ oneOrMore Greedy Digit @ [Close 1] @ lits ''W'' @ oneOrMore Greedy Space @
     lits ''X'' @ oneOrMore Greedy Space @
     [Open 2] @ oneOrMore Greedy Digit @ [Close 2] @ lits ''H'' @ [Eol]"

definition decimalPattern :: "string \<Rightarrow> node list" where
  \<comment> \<open>\<^verbatim>\<open>/Width:\s*(\d+(?:\.\d+)?)/i\<close> and \<^verbatim>\<open>/Height:\s*(\d+(?:\.\d+)?)/i\<close>\<close>
  "decimalPattern label =
     lits label @ [Star Greedy Space, Open 1] @ oneOrMore Greedy Digit @
     [Opt (lits ''.'' @ oneOrMore Greedy Digit), Close 1]"

definition doorPattern :: "node list" where
  \<comment> \<open>\<^verbatim>\<open>/Door:\s*(\d+)/i\<close>\<close>
  "doorPattern = lits ''Door:'' @ [Star Greedy Space, Open 1] @ oneOrMore Greedy Digit @ [Close 1]"

definition extractMeta :: "raw_row \<Rightarrow> string \<Rightarrow> string option" where
  "extractMeta row key = row (''Meta: '' @ key)"

text \<open>The constants of the mapping callback, one definition each, in the order of the source.\<close>

definition row_nameParts :: "raw_row \<Rightarrow> captures option" where
  "row_nameParts row = match True namePattern (or_str (row ''Name'') [])"

definition row_brand :: "raw_row \<Rightarrow> string" where
  "row_brand row = or_str (group_of 1 (row_nameParts row)) ''Forevermark''"

definition row_collectionStyle :: "raw_row \<Rightarrow> string" where
  "row_collectionStyle row = or_str (group_of 2 (row_nameParts row)) []"

definition row_doorStyle :: "raw_row \<Rightarrow> string" where
  \<comment> \<open>the constant \<^verbatim>\<open>doorStyle\<close> of the callback: the style token of the title\<close>
  "row_doorStyle row =
     (if str_includes (row_collectionStyle row) ''Shaker'' then ''Shaker''
      else or_str (Some (last (split_on CHR '' '' (row_collectionStyle row)))) ''Shaker'')"

definition row_sizeMatch :: "raw_row \<Rightarrow> captures option" where
  "row_sizeMatch row = match True sizePattern (or_str (row ''Name'') [])"

definition row_shortDesc :: "raw_row \<Rightarrow> string" where
  "row_shortDesc row = or_str (row ''Short description'') []"

definition row_width :: "raw_row \<Rightarrow> number" where
  \<comment> \<open>\<^verbatim>\<open>width\<close> after its second assignment\<close>
  "row_width row =
     (let width = parseFloat (or_str (group_of 1 (row_sizeMatch row)) ''0'');
          widthMatch = match True (decimalPattern ''Width:'') (row_shortDesc row)
      in num_or (parseFloat (or_str (group_of 1 widthMatch) (toString width))) (Fin 0))"

definition row_height :: "raw_row \<Rightarrow> number" where
  \<comment> \<open>\<^verbatim>\<open>height\<close> after its second assignment\<close>
  "row_height row =
     (let height = parseFloat (or_str (group_of 2 (row_sizeMatch row)) ''0'');
          heightMatch = match True (decimalPattern ''Height:'') (row_shortDesc row)
      in num_or (parseFloat (or_str (group_of 1 heightMatch) (toString height))) (Fin 0))"

definition row_doors :: "raw_row \<Rightarrow> number" where
  "row_doors row =
     (let doorMatch = match True doorPattern (row_shortDesc row)
      in num_or (parseInt (or_str (group_of 1 doorMatch) ''1'')) (Fin 1))"

definition row_tags :: "raw_row \<Rightarrow> string" where
  "row_tags row = toLowerCase (or_str (row ''Tags'') [])"

definition row_tagDoorStyle :: "raw_row \<Rightarrow> string" where
  "row_tagDoorStyle row =
     (if str_includes (row_tags row) ''double-door'' then ''Double Door''
      else if str_includes (row_tags row) ''single-door'' then ''Single Door''
      else toString (row_doors row) @ '' Door'')"

definition row_retailPrice :: "raw_row \<Rightarrow> number" where
  "row_retailPrice row =
     num_or (parseFloat (or_str (or_opt (row ''Regular price'') (row ''Sale price'')) ''0'')) (Fin 0)"

definition row_weight :: "raw_row \<Rightarrow> number" where
  "row_weight row = num_or (parseFloat (or_str (row ''Weight (lbs)'') ''0'')) (Fin 0)"

definition row_imagePath :: "raw_row \<Rightarrow> string" where
  "row_imagePath row =
     (case row ''Images'' of
        None \<Rightarrow> []
      | Some images \<Rightarrow>
          if images = [] then [] else trim (or_str (Some (hd (split_on CHR '','' images))) []))"

definition row_assemblyFee :: "raw_row \<Rightarrow> number" where
  "row_assemblyFee row = num_or (parseFloat (or_str (extractMeta row ''assembly_fee'') ''0'')) (Fin 0)"

definition row_assemblyCost :: "raw_row \<Rightarrow> number" where
  "row_assemblyCost row = num_or (parseFloat (or_str (extractMeta row ''assembly_cost'') ''0'')) (Fin 0)"

definition mapRow :: "raw_row \<Rightarrow> cabinet_product" where
  \<comment> \<open>the object literal the callback returns\<close>
  "mapRow row =
     \<lparr> wSKU = replace False azPattern ''W-'' (or_str (row ''SKU'') []),
       vSKU = replace False azPattern ''V-'' (or_str (row ''SKU'') []),
       brand = or_str (Some (row_brand row)) [],
       doorStyle = or_str (Some (or_str (Some (row_tagDoorStyle row)) (row_doorStyle row))) [],
       discount = Fin 0,
       costFactor = Fin 1,
       assemblyFee = row_assemblyFee row,
       assemblyCost = row_assemblyCost row,
       retailPrice = row_retailPrice row,
       discountPrice = Fin 0,
       height = row_height row,
       width = row_width row,
       weight = row_weight row,
       species = ''MDF'',
       imagePath = row_imagePath row,
       categories = or_str (row ''Categories'') [],
       tags = or_str (row ''Tags'') [],
       publish = (row ''Published'' = Some ''1'') \<rparr>"

definition mapToCabinetProduct :: "raw_row list \<Rightarrow> cabinet_product list" where
  "mapToCabinetProduct rows = map mapRow (filter (\<lambda>row. truthy (row ''SKU'')) rows)"

section \<open>The import session\<close>

record import_form =
  defaultPublish :: "bool option"
  defaultDiscount :: "number option"

record component =
  importForm :: import_form
  parsedRows :: "raw_row list"
  mappedRows :: "cabinet_product list"
  previewRows :: "cabinet_product list"
  isParsing :: bool
  isDragOver :: bool
  isImporting :: bool
  importProgress :: number
  errorMessage :: "string option"
  successMessage :: "string option"
  importedCount :: nat

text \<open>
  The value of a form control is a value or \<^verbatim>\<open>null\<close>, here \<^term>\<open>None\<close>. The counters of
  the session are array lengths and sums of them: they stay below \<open>2 ^ 32\<close>, where Number
  arithmetic is exact and a Number prints with all its digits, so they are natural numbers
  and \<open>showNat\<close> prints them.
\<close>

definition form_invalid :: "import_form \<Rightarrow> bool" where
  \<comment> \<open>Modelled from the spec: \<^verbatim>\<open>importForm.invalid\<close>, which the form library computes from the
      validators the constructor declares, \<^verbatim>\<open>Validators.min(0)\<close> and \<^verbatim>\<open>Validators.max(100)\<close>
      on \<^verbatim>\<open>defaultDiscount\<close>: the configuration is invalid when the discount is a number
      outside [0, 100]; an empty control passes both validators.\<close>
  "form_invalid f =
     (case defaultDiscount f of None \<Rightarrow> False | Some d \<Rightarrow> num_lt d (Fin 0) \<or> num_lt (Fin 100) d)"

datatype parse_outcome =
    Complete "raw_row list" "(string \<times> string) list"
  | Failed string

definition onFileUpload :: "string option \<Rightarrow> parse_outcome \<Rightarrow> component \<Rightarrow> component" where
  \<comment> \<open>The handler together with the callback the parser calls later: \<open>file\<close> is the name of
      the selected file if there is one, \<open>Complete data errors\<close> the parser's result with its
      errors as (code, message), \<open>Failed message\<close> its error callback.\<close>
  "onFileUpload file outcome c =
     (if (case file of None \<Rightarrow> True | Some name \<Rightarrow> \<not> suffix ''.csv'' name)
      then c\<lparr>errorMessage := Some ''Please select a valid CSV file.''\<rparr>
      else (let candidates_1 = c\<lparr>isParsing := True, errorMessage := None\<rparr>
            in case outcome of
                 Complete data errors \<Rightarrow>
                   (let c2 = candidates_1\<lparr>isParsing := False\<rparr>;
                        nonFieldErrors = filter (\<lambda>e. fst e \<noteq> ''TooFewFields'') errors
                    in if length nonFieldErrors > 0
                       then c2\<lparr>errorMessage := Some (''Parse errors: '' @ snd (hd nonFieldErrors))\<rparr>
                       else (let parsed = filter (\<lambda>row. truthy (row ''SKU'')) data;
                                 mapped = mapToCabinetProduct parsed
                             in c2\<lparr>parsedRows := parsed,
                                   mappedRows := mapped,
                                   previewRows := take 10 mapped,
                                   successMessage :=
                                     Some (showNat (length mapped) @ '' rows mapped successfully from '' @
                                           showNat (length parsed) @ '' parsed.'')\<rparr>))
               | Failed message \<Rightarrow>
                   candidates_1\<lparr>isParsing := False,
                      errorMessage := Some (''Failed to parse file: '' @ message)\<rparr>))"

section \<open>The batch importer\<close>

text \<open>
  The create-operation belongs to the persistence service. \<open>create j input\<close> is the outcome of
  the call made for record number \<open>j\<close>: \<^term>\<open>Some r\<close> when the promise resolves with the
  persisted record \<open>r\<close>, \<^term>\<open>None\<close> when it rejects, which the callback catches and
  turns into \<^verbatim>\<open>null\<close>. The trace records what the importer does to the outside: a call being
  issued, the settlement of a call that \<^verbatim>\<open>Promise.all\<close> has waited for, and a write of the
  progress value. The callbacks of one batch run up to their call of the service in the
  order of the batch, before anything settles.
\<close>

datatype event = Issue nat cabinet_product | Settle nat | Progress number

definition batchSize :: nat where
  "batchSize = 10"

definition toNumber :: "number option \<Rightarrow> number" where
  \<comment> \<open>\<^verbatim>\<open>null\<close> in arithmetic is 0\<close>
  "toNumber v = (case v of None \<Rightarrow> Fin 0 | Some d \<Rightarrow> d)"

definition slice :: "nat \<Rightarrow> nat \<Rightarrow> 'a list \<Rightarrow> 'a list" where
  "slice i j xs = take (j - i) (drop i xs)"

definition row_input :: "import_form \<Rightarrow> cabinet_product \<Rightarrow> cabinet_product" where
  \<comment> \<open>the constant \<^verbatim>\<open>input\<close> of the callback\<close>
  "row_input defaults row =
     (let discountPrice' =
            fmul (num_or (retailPrice row) (Fin 0))
                 (fsub (Fin 1) (fdiv (toNumber (defaultDiscount defaults)) (Fin 100)))
      in row\<lparr>publish := (case defaultPublish defaults of None \<Rightarrow> publish row | Some p \<Rightarrow> p),
             discount := (case defaultDiscount defaults of
                            None \<Rightarrow> num_or (discount row) (Fin 0)
                          | Some d \<Rightarrow> d),
             discountPrice := discountPrice'\<rparr>)"

definition importBatch ::
  "(nat \<Rightarrow> cabinet_product \<Rightarrow> 'r option) \<Rightarrow> nat \<Rightarrow> nat \<Rightarrow> component \<times> event list
     \<Rightarrow> component \<times> event list" where
  \<comment> \<open>one iteration of the loop, for the batch that starts at index \<open>i\<close>\<close>
  "importBatch create b i st =
     (let c = fst st;
          batch = slice i (i + b) (mappedRows c);
          calls = zip [i ..< i + length batch] (map (row_input (importForm c)) batch);
          batchResults = map (\<lambda>(j, input). create j input) calls;
          progress =
            mathRound (fmul (fdiv (Fin (of_nat (i + length batch)))
                                  (Fin (of_nat (length (mappedRows c)))))
                            (Fin 100))
      in (c\<lparr>importedCount := importedCount c + length (filter (\<lambda>r. r \<noteq> None) batchResults),
            importProgress := progress\<rparr>,
          snd st @ map (\<lambda>(j, input). Issue j input) calls @ map (\<lambda>(j, input). Settle j) calls @
          [Progress progress]))"

partial_function (option) importLoop ::
  "(nat \<Rightarrow> cabinet_product \<Rightarrow> 'r option) \<Rightarrow> nat \<Rightarrow> nat \<Rightarrow> component \<times> event list
     \<Rightarrow> (component \<times> event list) option" where
  "importLoop create b i st =
     (if i < length (mappedRows (fst st))
      then importLoop create b (i + b) (importBatch create b i st)
      else Some st)"

definition importRows ::
  "(nat \<Rightarrow> cabinet_product \<Rightarrow> 'r option) \<Rightarrow> nat \<Rightarrow> component
     \<Rightarrow> (component \<times> event list) option" where
  \<comment> \<open>the body of \<^verbatim>\<open>onImportRows\<close> for a batch size \<open>b\<close>; \<^term>\<open>None\<close> when it does not return\<close>
  "importRows create b c =
     (if form_invalid (importForm c) \<or> length (mappedRows c) = 0
      then Some (c\<lparr>errorMessage := Some ''Invalid form or no rows to import.''\<rparr>, [])
      else (case importLoop create b 0
                   (c\<lparr>isImporting := True, importProgress := Fin 0, importedCount := 0,
                      errorMessage := None, successMessage := None\<rparr>, []) of
              None \<Rightarrow> None
            | Some (candidates_1, tr) \<Rightarrow>
                (let c2 = candidates_1\<lparr>isImporting := False\<rparr>
                 in Some (if importedCount c2 = length (mappedRows c2)
                          then c2\<lparr>successMessage :=
                                    Some (''Successfully imported '' @ showNat (importedCount c2) @
                                          '' rows!'')\<rparr>
                          else c2\<lparr>errorMessage :=
                                    Some (''Imported '' @ showNat (importedCount c2) @ '' of '' @
                                          showNat (length (mappedRows c2)) @
                                          '' rows. Check console for errors.'')\<rparr>,
                          tr))))"

definition onImportRows ::
  "(nat \<Rightarrow> cabinet_product \<Rightarrow> 'r option) \<Rightarrow> component \<Rightarrow> (component \<times> event list) option" where
  "onImportRows create c = importRows create batchSize c"

section \<open>What a run is expected to do\<close>

text \<open>
  The quantities the statements about a run are phrased with: the outcome counted over a
  range of records, the progress value after \<open>j\<close> of \<open>n\<close> records, and the events of batch
  number \<open>k\<close> of size \<open>b\<close>, which covers the records from \<open>k * b\<close> up to \<open>min n (k * b + b)\<close>.
  The progress value is compared with the percentage rounded in exact arithmetic, which the
  double computation of the source misses only at some percentages that lie halfway between
  two integers.
\<close>

definition is_issue :: "event \<Rightarrow> bool" where
  "is_issue e = (case e of Issue j x \<Rightarrow> True | _ \<Rightarrow> False)"

definition progress_values :: "event list \<Rightarrow> number list" where
  "progress_values tr = concat (map (\<lambda>e. case e of Progress p \<Rightarrow> [p] | _ \<Rightarrow> []) tr)"

definition succeeded ::
  "(nat \<Rightarrow> cabinet_product \<Rightarrow> 'r option) \<Rightarrow> import_form \<Rightarrow> cabinet_product list \<Rightarrow> nat \<Rightarrow> nat \<Rightarrow> nat"
  where
  "succeeded create defaults rows i j =
     length (filter (\<lambda>k. create k (row_input defaults (rows ! k)) \<noteq> None) [i ..< j])"

definition progressAt :: "nat \<Rightarrow> nat \<Rightarrow> number" where
  "progressAt n j = mathRound (fmul (fdiv (Fin (real j)) (Fin (real n))) (Fin 100))"

definition batchEvents :: "import_form \<Rightarrow> cabinet_product list \<Rightarrow> nat \<Rightarrow> nat \<Rightarrow> event list" where
  "batchEvents defaults rows b k =
     (let first = k * b; next = min (length rows) (k * b + b)
      in map (\<lambda>j. Issue j (row_input defaults (rows ! j))) [first ..< next] @
         map Settle [first ..< next] @
         [Progress (progressAt (length rows) next)])"

definition batchCount :: "nat \<Rightarrow> nat \<Rightarrow> nat" where
  \<comment> \<open>\<open>ceil(n / b)\<close>\<close>
  "batchCount n b = nat \<lceil>real n / real b\<rceil>"

definition percent :: "nat \<Rightarrow> nat \<Rightarrow> real" where
  \<comment> \<open>the double that \<^verbatim>\<open>j / n * 100\<close> evaluates to for \<open>j\<close> of \<open>n > 0\<close> records: the quotient
      is rounded to a double, and so is its product with 100\<close>
  "percent n j = roundMag (roundMag (real j / real n) * 100)"

definition processed :: "nat \<Rightarrow> nat \<Rightarrow> nat \<Rightarrow> nat" where
  \<comment> \<open>the number of records processed when batch number \<open>k\<close> has settled\<close>
  "processed n b k = min n (k * b + b)"

definition exactPercent :: "nat \<Rightarrow> nat \<Rightarrow> int" where
  \<comment> \<open>\<open>round((j / n) * 100)\<close> as the specification writes it, in exact arithmetic, a half
      rounded up\<close>
  "exactPercent n j = \<lfloor>real j / real n * 100 + 1 / 2\<rfloor>"

definition halfway :: "nat \<Rightarrow> nat \<Rightarrow> bool" where
  \<comment> \<open>the exact percentage \<open>100 * j / n\<close> lies halfway between two integers\<close>
  "halfway n j \<longleftrightarrow> n dvd 200 * j \<and> odd (200 * j div n)"

definition progressOf :: "(component \<times> event list) option \<Rightarrow> number list" where
  \<comment> \<open>the progress values a run has written, in order\<close>
  "progressOf r = (case r of None \<Rightarrow> [] | Some (c', tr) \<Rightarrow> progress_values tr)"

section \<open>Sample data\<close>

definition sampleRow :: raw_row where
  "sampleRow = [''SKU'' \<mapsto> ''AZ-123'', ''Name'' \<mapsto> ''Acme Shaker Wall Cabinet 9W X 30H'']"

definition styledRow :: raw_row where
  "styledRow = [''SKU'' \<mapsto> ''AZ-7'', ''Name'' \<mapsto> ''Acme Midnight Blue Base Cabinet 12W X 30H'']"

definition pricedRow :: raw_row where
  "pricedRow = [''SKU'' \<mapsto> ''AZ-9'', ''Regular price'' \<mapsto> ''abc'', ''Sale price'' \<mapsto> ''12.5'']"

definition sampleSession :: "nat \<Rightarrow> component" where
  \<comment> \<open>a session after an upload of \<open>k\<close> copies of \<open>sampleRow\<close>, the form at its initial values\<close>
  "sampleSession k =
     \<lparr> importForm = \<lparr> defaultPublish = Some False, defaultDiscount = Some (Fin 0) \<rparr>,
       parsedRows = replicate k sampleRow,
       mappedRows = replicate k (mapRow sampleRow),
       previewRows = replicate (min k 10) (mapRow sampleRow),
       isParsing = False,
       isDragOver = False,
       isImporting = False,
       importProgress = Fin 0,
       errorMessage = None,
       successMessage = None,
       importedCount = 0 \<rparr>"

definition taggedRow :: raw_row where
  "taggedRow = [''SKU'' \<mapsto> ''AZ-8'', ''Tags'' \<mapsto> ''Kitchen, Double-Door'']"

definition saleRow :: raw_row where
  "saleRow = [''SKU'' \<mapsto> ''AZ-6'', ''Regular price'' \<mapsto> [], ''Sale price'' \<mapsto> ''15'']"

definition listedRow :: raw_row where
  "listedRow = [''SKU'' \<mapsto> ''AZ-5'', ''Regular price'' \<mapsto> ''200'']"

definition accepting :: "nat \<Rightarrow> cabinet_product \<Rightarrow> unit option" where
  \<comment> \<open>a create-operation that succeeds for every record\<close>
  "accepting j input = Some ()"

section \<open>Facts about the anchored pattern\<close>

lemma search_Bol_later: "0 < pos \<Longrightarrow> search ci (Bol # k) inp pos s = None"
  by (induction s arbitrary: pos) simp_all

lemma run_az:
  "run False inp azPattern 0 s [] [] = (if prefix ''AZ-'' s then Some (3, []) else None)"
proof (cases s)
  case Nil
  then show ?thesis by (simp add: azPattern_def lits_def)
next
  case (Cons a s1)
  show ?thesis
  proof (cases s1)
    case Nil
    with Cons show ?thesis by (simp add: azPattern_def lits_def)
  next
    case (Cons b s2)
    note c2 = this
    show ?thesis
    proof (cases s2)
      case Nil
      with c2 \<open>s = a # s1\<close> show ?thesis by (simp add: azPattern_def lits_def)
    next
      case (Cons c s3)
      with c2 \<open>s = a # s1\<close> show ?thesis by (auto simp add: azPattern_def lits_def numeral_3_eq_3)
    qed
  qed
qed

lemma replace_az:
  "replace False azPattern repl s = (if prefix ''AZ-'' s then repl @ drop 3 s else s)"
proof -
  have later: "(case s of [] \<Rightarrow> None | x # s' \<Rightarrow> search False azPattern s (Suc 0) s') = None"
    by (cases s) (simp_all add: azPattern_def search_Bol_later del: search.simps)
  show ?thesis
    unfolding replace_def
    by (subst search.simps) (simp add: run_az later del: search.simps)
qed

lemma C10_try:
  assumes "row ''SKU'' = Some s" "s \<noteq> []" "\<not> prefix ''AZ-'' s"
  shows "wSKU (mapRow row) = s \<and> vSKU (mapRow row) = s"
  using assms by (simp add: mapRow_def replace_az or_str_def)

section \<open>Facts about rounding\<close>

lemma ilog_hi_bounds:
  "2 \<le> b \<Longrightarrow> 1 \<le> q \<Longrightarrow>
     0 \<le> ilog_hi b q \<and> real b powi ilog_hi b q \<le> q \<and> q < real b powi (ilog_hi b q + 1)"
proof (induction b q rule: ilog_hi.induct)
  case (1 b q)
  have bpos: "0 < real b" using "1.prems" by simp
  show ?case
  proof (cases "real b \<le> q")
    case True
    then have step: "ilog_hi b q = ilog_hi b (q / real b) + 1"
      using "1.prems" by (subst ilog_hi.simps) simp
    have "1 \<le> q / real b" using True bpos by (simp add: le_divide_eq)
    with "1.IH" "1.prems" True
    have ih: "0 \<le> ilog_hi b (q / real b)"
      "real b powi ilog_hi b (q / real b) \<le> q / real b"
      "q / real b < real b powi (ilog_hi b (q / real b) + 1)"
      by simp_all
    have "real b powi (ilog_hi b (q / real b) + 1) = real b powi ilog_hi b (q / real b) * real b"
      using bpos by (simp add: power_int_add_1)
    moreover have "real b powi (ilog_hi b (q / real b) + 1 + 1)
                   = real b powi (ilog_hi b (q / real b) + 1) * real b"
      by (rule power_int_add_1) (use bpos in auto)
    ultimately show ?thesis
      using ih bpos unfolding step by (simp add: le_divide_eq divide_less_eq)
  next
    case False
    then have "ilog_hi b q = 0" by (subst ilog_hi.simps) simp
    with False "1.prems" show ?thesis by simp
  qed
qed

lemma ilog_lo_bounds:
  "2 \<le> b \<Longrightarrow> 0 < q \<Longrightarrow> q < 1 \<Longrightarrow>
     real b powi ilog_lo b q \<le> q \<and> q < real b powi (ilog_lo b q + 1)"
proof (induction b q rule: ilog_lo.induct)
  case (1 b q)
  have bpos: "0 < real b" using "1.prems" by simp
  have step: "ilog_lo b q = ilog_lo b (q * real b) - 1"
    using "1.prems" by (subst ilog_lo.simps) simp
  have qb: "0 < q * real b" using "1.prems" bpos by simp
  show ?case
  proof (cases "q * real b < 1")
    case True
    with "1.IH" "1.prems" qb
    have ih: "real b powi ilog_lo b (q * real b) \<le> q * real b"
      "q * real b < real b powi (ilog_lo b (q * real b) + 1)"
      by simp_all
    have "real b powi ilog_lo b (q * real b) = real b powi (ilog_lo b (q * real b) - 1) * real b"
      using bpos by (simp add: power_int_minus_mult)
    moreover have "real b powi (ilog_lo b (q * real b) + 1)
                   = real b powi ilog_lo b (q * real b) * real b"
      using bpos by (simp add: power_int_add_1)
    ultimately show ?thesis
      using ih bpos unfolding step by simp
  next
    case False
    then have "ilog_lo b (q * real b) = 0" by (subst ilog_lo.simps) simp
    with False "1.prems" bpos show ?thesis
      unfolding step by (simp add: power_int_minus field_simps)
  qed
qed

lemma ilog_bounds:
  assumes "2 \<le> b" "0 < q"
  shows "real b powi ilog b q \<le> q \<and> q < real b powi (ilog b q + 1)"
  using assms ilog_hi_bounds [of b q] ilog_lo_bounds [of b q] by (simp add: ilog_def)

lemma powi_sandwich_unique:
  fixes x :: real
  assumes "1 < x" "x powi e \<le> q" "q < x powi (e + 1)" "x powi e' \<le> q" "q < x powi (e' + 1)"
  shows "e = e'"
proof -
  have "x powi e < x powi (e' + 1)" using assms by linarith
  then have "e < e' + 1"
    using assms(1) power_int_increasing [of "e' + 1" e x] by (cases "e < e' + 1") auto
  moreover have "x powi e' < x powi (e + 1)" using assms by linarith
  then have "e' < e + 1"
    using assms(1) power_int_increasing [of "e + 1" e' x] by (cases "e' < e + 1") auto
  ultimately show ?thesis by simp
qed

lemma ilog_unique:
  assumes "2 \<le> b" "real b powi e \<le> q" "q < real b powi (e + 1)"
  shows "ilog b q = e"
proof -
  have b1: "1 < real b" using assms(1) by simp
  then have "0 < real b powi e" by simp
  with assms have "0 < q" by linarith
  from ilog_bounds [OF assms(1) this] assms(2,3) b1 show ?thesis
    using powi_sandwich_unique by blast
qed

lemma roundHalfEven_of_int: "roundHalfEven (of_int z) = z"
  by (simp add: roundHalfEven_def)

lemma roundHalfEven_bounds: "\<lfloor>x\<rfloor> \<le> roundHalfEven x \<and> roundHalfEven x \<le> \<lfloor>x\<rfloor> + 1"
  by (simp add: roundHalfEven_def Let_def)

lemma roundHalfEven_mono:
  assumes "x \<le> y"
  shows "roundHalfEven x \<le> roundHalfEven y"
proof (cases "\<lfloor>x\<rfloor> = \<lfloor>y\<rfloor>")
  case True
  with assms show ?thesis by (auto simp add: roundHalfEven_def Let_def)
next
  case False
  with assms have "\<lfloor>x\<rfloor> + 1 \<le> \<lfloor>y\<rfloor>" using floor_mono [OF assms] by linarith
  with roundHalfEven_bounds [of x] roundHalfEven_bounds [of y] show ?thesis by linarith
qed

lemma ilog_mono:
  assumes "0 < a" "a \<le> b"
  shows "ilog 2 a \<le> ilog 2 b"
proof (rule ccontr)
  assume "\<not> ilog 2 a \<le> ilog 2 b"
  then have "ilog 2 b + 1 \<le> ilog 2 a" by simp
  then have "(2::real) powi (ilog 2 b + 1) \<le> 2 powi ilog 2 a"
    by (intro power_int_increasing) auto
  moreover have "2 powi ilog 2 a \<le> a" using ilog_bounds [of 2 a] assms by simp
  moreover have "b < 2 powi (ilog 2 b + 1)" using ilog_bounds [of 2 b] assms by simp
  ultimately show False using assms by linarith
qed

lemmas roundMag_alt = roundMag_def

lemma roundMag_nonneg:
  assumes "0 \<le> a"
  shows "0 \<le> roundMag a"
proof (cases "a = 0")
  case True
  then show ?thesis by (simp add: roundMag_alt)
next
  case False
  have "0 \<le> a / 2 powi ulpExp a" using assms by simp
  then have "roundHalfEven 0 \<le> roundHalfEven (a / 2 powi ulpExp a)"
    by (rule roundHalfEven_mono)
  then have "0 \<le> roundHalfEven (a / 2 powi ulpExp a)" by (simp add: roundHalfEven_def)
  with False show ?thesis by (simp add: roundMag_alt)
qed

lemma scaled_below:
  assumes "0 < a"
  shows "a / 2 powi ulpExp a < 2 powi 53"
proof -
  have "a < 2 powi (ilog 2 a + 1)" using ilog_bounds [of 2 a] assms by simp
  also have "\<dots> \<le> 2 powi (ulpExp a + 53)"
    by (intro power_int_increasing) (auto simp add: ulpExp_def)
  also have "\<dots> = 2 powi 53 * 2 powi ulpExp a"
    by (simp add: power_int_add)
  finally show ?thesis by (simp add: divide_less_eq)
qed

lemma roundMag_upper:
  assumes "0 < a"
  shows "roundMag a \<le> 2 powi (ulpExp a + 53)"
proof -
  have "a / 2 powi ulpExp a \<le> of_int (2 ^ 53)" using scaled_below [OF assms] by simp
  then have "roundHalfEven (a / 2 powi ulpExp a) \<le> roundHalfEven (of_int (2 ^ 53))"
    by (rule roundHalfEven_mono)
  then have "roundHalfEven (a / 2 powi ulpExp a) \<le> 2 ^ 53" by (simp only: roundHalfEven_of_int)
  then have "real_of_int (roundHalfEven (a / 2 powi ulpExp a)) \<le> 2 powi 53"
    by (metis of_int_le_iff of_int_numeral of_int_power power_int_numeral)
  then have "real_of_int (roundHalfEven (a / 2 powi ulpExp a)) * 2 powi ulpExp a
               \<le> 2 powi 53 * 2 powi ulpExp a"
    by (intro mult_right_mono) auto
  then show ?thesis using assms by (simp add: roundMag_alt power_int_add mult.commute)
qed

lemma roundMag_lower:
  assumes "0 < a" "- 1074 < ulpExp a"
  shows "2 powi (ulpExp a + 52) \<le> roundMag a"
proof -
  have e: "ulpExp a = ilog 2 a - 52" using assms(2) by (simp add: ulpExp_def max_def split: if_splits)
  have "2 powi (ulpExp a + 52) \<le> a" using ilog_bounds [of 2 a] assms(1) e by simp
  moreover have "2 powi (ulpExp a + 52) = 2 powi 52 * (2::real) powi ulpExp a"
    by (simp add: power_int_add mult.commute)
  ultimately have "of_int (2 ^ 52) \<le> a / 2 powi ulpExp a" by (simp add: le_divide_eq)
  then have "roundHalfEven (of_int (2 ^ 52)) \<le> roundHalfEven (a / 2 powi ulpExp a)"
    by (rule roundHalfEven_mono)
  then have "2 ^ 52 \<le> roundHalfEven (a / 2 powi ulpExp a)" by (simp only: roundHalfEven_of_int)
  then have "2 powi 52 \<le> real_of_int (roundHalfEven (a / 2 powi ulpExp a))"
    by (metis of_int_le_iff of_int_numeral of_int_power power_int_numeral)
  then have "2 powi 52 * 2 powi ulpExp a
               \<le> real_of_int (roundHalfEven (a / 2 powi ulpExp a)) * 2 powi ulpExp a"
    by (intro mult_right_mono) auto
  then show ?thesis using assms by (simp add: roundMag_alt power_int_add mult.commute)
qed

lemma roundMag_mono:
  assumes "0 \<le> a" "a \<le> b"
  shows "roundMag a \<le> roundMag b"
proof (cases "a = 0")
  case True
  then show ?thesis using roundMag_nonneg [of b] assms by (simp add: roundMag_alt)
next
  case False
  with assms have pos: "0 < a" "0 < b" by simp_all
  have le: "ulpExp a \<le> ulpExp b" using ilog_mono [OF pos(1) assms(2)] by (simp add: ulpExp_def)
  show ?thesis
  proof (cases "ulpExp a = ulpExp b")
    case True
    have "a / 2 powi ulpExp b \<le> b / 2 powi ulpExp b" using assms by (simp add: divide_right_mono)
    then have "roundHalfEven (a / 2 powi ulpExp b) \<le> roundHalfEven (b / 2 powi ulpExp b)"
      by (rule roundHalfEven_mono)
    then have "real_of_int (roundHalfEven (a / 2 powi ulpExp b)) * 2 powi ulpExp b
                 \<le> real_of_int (roundHalfEven (b / 2 powi ulpExp b)) * 2 powi ulpExp b"
      by (intro mult_right_mono) auto
    with pos True show ?thesis by (simp add: roundMag_alt)
  next
    case False
    with le have lt: "ulpExp a + 1 \<le> ulpExp b" by simp
    have "- 1074 \<le> ulpExp a" by (simp add: ulpExp_def)
    with lt have "- 1074 < ulpExp b" by simp
    from roundMag_lower [OF pos(2) this] have "2 powi (ulpExp b + 52) \<le> roundMag b" .
    moreover have "(2::real) powi (ulpExp a + 53) \<le> 2 powi (ulpExp b + 52)"
      using lt by (intro power_int_increasing) auto
    ultimately show ?thesis using roundMag_upper [OF pos(1)] by linarith
  qed
qed

lemma fl_nonneg:
  assumes "0 \<le> q" "roundMag q < 2 ^ 1024"
  shows "fl q = Fin (roundMag q)"
  using assms by (simp add: fl_def Let_def)

lemma roundMag_grid:
  assumes "0 < a" "ulpExp a \<le> k" "a = of_int m * 2 powi k"
  shows "roundMag a = a"
proof -
  have "a / 2 powi ulpExp a = of_int m * 2 powi (k - ulpExp a)"
    using assms(3) by (simp add: power_int_diff)
  also have "\<dots> = of_int (m * 2 ^ nat (k - ulpExp a))"
    using assms(2) by (simp add: power_int_def)
  finally have "roundHalfEven (a / 2 powi ulpExp a) = m * 2 ^ nat (k - ulpExp a)"
    by (simp only: roundHalfEven_of_int)
  then have "roundMag a = of_int (m * 2 ^ nat (k - ulpExp a)) * 2 powi ulpExp a"
    using assms(1) by (simp add: roundMag_alt)
  also have "\<dots> = of_int m * (2 powi (k - ulpExp a) * 2 powi ulpExp a)"
    using assms(2) by (simp add: power_int_def)
  also have "\<dots> = of_int m * 2 powi k"
    by (simp flip: power_int_add)
  finally show ?thesis using assms(3) by simp
qed

lemma roundMag_nat:
  assumes "n < 2 ^ 53"
  shows "roundMag (real n) = real n"
proof (cases "n = 0")
  case True
  then show ?thesis by (simp add: roundMag_alt)
next
  case False
  then have pos: "0 < real n" by simp
  have "real n < 2 powi 53" using assms
    by (metis of_nat_less_iff of_nat_numeral of_nat_power power_int_numeral)
  moreover have "2 powi ilog 2 (real n) \<le> real n" using ilog_bounds [of 2 "real n"] pos by simp
  ultimately have "(2::real) powi ilog 2 (real n) < 2 powi 53" by linarith
  then have "ilog 2 (real n) < 53"
    using power_int_increasing [of 53 "ilog 2 (real n)" "2::real"]
    by (cases "ilog 2 (real n) < 53") auto
  moreover have "1 \<le> real n" using False by simp
  then have "0 \<le> ilog 2 (real n)" using ilog_hi_bounds [of 2 "real n"] by (simp add: ilog_def)
  ultimately have "ulpExp (real n) \<le> 0" by (simp add: ulpExp_def)
  from roundMag_grid [OF pos this, of "int n"] show ?thesis by simp
qed

lemma fl_nat:
  assumes "n < 2 ^ 53"
  shows "fl (real n) = Fin (real n)"
proof -
  have "real n < 2 ^ 53" using assms
    by (metis of_nat_less_iff of_nat_numeral of_nat_power)
  also have "(2::real) ^ 53 < 2 ^ 1024" by simp
  finally show ?thesis using roundMag_nat [OF assms] by (simp add: fl_nonneg)
qed

lemma fl_eval:
  assumes "2 powi e \<le> q" "q < 2 powi (e + 1)" "- 1022 \<le> e" "e \<le> 1022"
  shows "fl q = Fin (of_int (roundHalfEven (q / 2 powi (e - 52))) * 2 powi (e - 52))"
proof -
  have "0 < (2::real) powi e" by simp
  with assms(1) have pos: "0 < q" by linarith
  have "ilog 2 q = e" using ilog_unique [of 2 e q] assms by simp
  with assms(3) have u: "ulpExp q = e - 52" by (simp add: ulpExp_def)
  have "roundMag q \<le> 2 powi (e + 1)" using roundMag_upper [OF pos] u by (simp add: add.commute)
  also have "\<dots> \<le> 2 powi 1023" using assms(4) by (intro power_int_increasing) auto
  also have "\<dots> < 2 ^ 1024" by simp
  finally have "roundMag q < 2 ^ 1024" .
  with pos u show ?thesis by (simp add: fl_nonneg roundMag_alt)
qed

lemma t1: "fl (2 / 5) = Fin (3602879701896397 / 9007199254740992)"
  by (subst fl_eval [where e = "- 2"]) (simp_all add: roundHalfEven_def)

lemma t2: "fl (12.5) = Fin 12.5"
  by (subst fl_eval [where e = "3"]) (simp_all add: roundHalfEven_def)

lemma t3: "fl (3602879701896397 / 9007199254740992 * 100) = Fin 40"
  by (subst fl_eval [where e = "5"]) (simp_all add: roundHalfEven_def)

lemma roundHalfEven_err: "\<bar>real_of_int (roundHalfEven t) - t\<bar> \<le> 1 / 2"
proof -
  have "real_of_int \<lfloor>t\<rfloor> \<le> t" "t < real_of_int \<lfloor>t\<rfloor> + 1" by linarith+
  then show ?thesis by (auto simp add: roundHalfEven_def Let_def)
qed

lemma roundMag_err:
  assumes "0 < a"
  shows "\<bar>roundMag a - a\<bar> \<le> 2 powi ulpExp a / 2"
proof -
  define u :: real where "u = 2 powi ulpExp a"
  have u: "0 < u" by (simp add: u_def)
  have "roundMag a - a = (real_of_int (roundHalfEven (a / u)) - a / u) * u"
    using assms u by (simp add: roundMag_def u_def algebra_simps)
  then have "\<bar>roundMag a - a\<bar> = \<bar>real_of_int (roundHalfEven (a / u)) - a / u\<bar> * u"
    using u by (simp add: abs_mult)
  also have "\<dots> \<le> 1 / 2 * u"
    using u roundHalfEven_err [of "a / u"] by (intro mult_right_mono) simp_all
  finally show ?thesis by (simp add: u_def)
qed

lemma ulpExp_le:
  assumes "0 < a" "a < 2 powi (e + 1)" "- 1074 \<le> e - 52"
  shows "ulpExp a \<le> e - 52"
proof -
  have "2 powi ilog 2 a \<le> a" using ilog_bounds [of 2 a] assms(1) by simp
  with assms(2) have "(2::real) powi ilog 2 a < 2 powi (e + 1)" by linarith
  then have "ilog 2 a < e + 1"
    using power_int_increasing [of "e + 1" "ilog 2 a" "2::real"]
    by (cases "ilog 2 a < e + 1") auto
  with assms(3) show ?thesis by (simp add: ulpExp_def)
qed

lemma roundMag_err_unit:
  assumes "0 \<le> a" "a \<le> 1"
  shows "\<bar>roundMag a - a\<bar> \<le> 1 / 2 ^ 53"
proof (cases "a = 0")
  case True
  then show ?thesis by (simp add: roundMag_def)
next
  case False
  with assms have pos: "0 < a" by simp
  have "ulpExp a \<le> 0 - 52" using pos assms(2) by (intro ulpExp_le) simp_all
  then have "(2::real) powi ulpExp a \<le> 2 powi (- 52)" by (intro power_int_increasing) simp_all
  then have "(2::real) powi ulpExp a / 2 \<le> 1 / 2 ^ 53" by (simp add: power_int_minus field_simps)
  with roundMag_err [OF pos] show ?thesis by linarith
qed

lemma roundMag_err_percent:
  assumes "0 \<le> a" "a \<le> 100"
  shows "\<bar>roundMag a - a\<bar> \<le> 1 / 2 ^ 47"
proof (cases "a = 0")
  case True
  then show ?thesis by (simp add: roundMag_def)
next
  case False
  with assms have pos: "0 < a" by simp
  have "ulpExp a \<le> 6 - 52" using pos assms(2) by (intro ulpExp_le) simp_all
  then have "(2::real) powi ulpExp a \<le> 2 powi (- 46)" by (intro power_int_increasing) simp_all
  then have "(2::real) powi ulpExp a / 2 \<le> 1 / 2 ^ 47" by (simp add: power_int_minus field_simps)
  with roundMag_err [OF pos] show ?thesis by linarith
qed

lemma num_le_Fin [simp]: "num_le (Fin a) (Fin b) \<longleftrightarrow> a \<le> b"
  by (auto simp add: num_le_def)

section \<open>Parsing and printing at the sample values\<close>

lemma fl_numeral: "numeral w < (2::nat) ^ 53 \<Longrightarrow> fl (numeral w) = Fin (numeral w)"
  using fl_nat [of "numeral w"] by simp

lemma fl_1: "fl 1 = Fin 1"
  using fl_nat [of 1] by simp

lemma fl_0: "fl 0 = Fin 0"
  by (simp add: fl_def roundMag_def)

lemmas char_defs = isDigit_def isWhiteSpace_def digitVal_def

lemmas parse_defs = parseFloat_def parseSign_def parseExponent_def digitsVal_def Let_def

lemma parseFloat_9: "parseFloat ''9'' = Fin 9"
  by (simp add: parse_defs char_defs fl_numeral)

lemma parseFloat_30: "parseFloat ''30'' = Fin 30"
  by (simp add: parse_defs char_defs fl_numeral)

lemma parseFloat_abc: "parseFloat ''abc'' = NaN"
  by (simp add: parse_defs char_defs fl_numeral)

lemma parseFloat_12_5: "parseFloat ''12.5'' = Fin 12.5"
  apply (simp add: parse_defs char_defs)
  apply (subst fl_eval [where e = 3])
  apply (simp_all add: roundHalfEven_def)
  done

lemma ilog10_9: "ilog 10 9 = 0"
  by (rule ilog_unique) simp_all

lemma candidates_9: "candidates 9 (Suc 0) = [(1, 9)]"
  by (simp add: candidates_def ilog10_9 fl_numeral)

lemma shortest_numeral:
  "shortest x (numeral w) k =
     (case candidates x k of
        [] \<Rightarrow> shortest x (pred_numeral w) (Suc k)
      | c # cs \<Rightarrow> Some (k, foldl (closer x k) c cs))"
  by (simp add: numeral_eq_Suc)

lemma toString_9: "toString (Fin 9) = ''9''"
  by (simp add: toString.simps shortest_numeral candidates_9 render_def showNat.simps)

lemma ilog10_30: "ilog 10 30 = 1"
  by (rule ilog_unique) simp_all

lemma candidates_30: "candidates 30 (Suc 0) = [(2, 3)]"
  by (simp add: candidates_def ilog10_30 fl_numeral)

lemma toString_30: "toString (Fin 30) = ''30''"
  by (simp add: toString.simps shortest_numeral candidates_30 render_def showNat.simps)

lemma sample_sizeMatch: "row_sizeMatch sampleRow = Some [(2, ''30''), (1, ''9'')]"
  by code_simp

lemma sample_widthMatch: "match True (decimalPattern ''Width:'') (row_shortDesc sampleRow) = None"
  by code_simp

lemma sample_heightMatch: "match True (decimalPattern ''Height:'') (row_shortDesc sampleRow) = None"
  by code_simp

lemma sample_width: "row_width sampleRow = Fin 9"
  by (simp add: row_width_def sample_sizeMatch sample_widthMatch group_of_def or_str_def parseFloat_9 toString_9 num_or_def Let_def)

lemma sample_height: "row_height sampleRow = Fin 30"
  by (simp add: row_height_def sample_sizeMatch sample_heightMatch group_of_def or_str_def parseFloat_30 toString_30 num_or_def Let_def)

lemma parseInt_1: "parseInt ''1'' = Fin 1"
  by (simp add: parseInt_def parse_defs char_defs fl_1)

lemma parseFloat_0: "parseFloat ''0'' = Fin 0"
  by (simp add: parse_defs char_defs fl_0)

lemma ilog10_1: "ilog 10 1 = 0"
  by (rule ilog_unique) simp_all

lemma candidates_1: "candidates 1 (Suc 0) = [(1, 1)]"
  by (simp add: candidates_def ilog10_1 fl_1 fl_numeral)

lemma toString_1: "toString (Fin 1) = ''1''"
  by (simp add: toString.simps shortest_numeral candidates_1 render_def showNat.simps)

lemma parseFloat_200: "parseFloat ''200'' = Fin 200"
  by (simp add: parse_defs char_defs fl_numeral)

lemma quarter_off: "fmul (Fin 200) (fsub (Fin 1) (fdiv (Fin 25) (Fin 100))) = Fin 150"
proof -
  have "fl (1 / 4) = Fin (1 / 4)"
    by (subst fl_eval [where e = "- 2"]) (simp_all add: roundHalfEven_def)
  moreover have "fl (3 / 4) = Fin (3 / 4)"
    by (subst fl_eval [where e = "- 1"]) (simp_all add: roundHalfEven_def)
  ultimately show ?thesis by (simp add: fl_numeral)
qed

section \<open>Facts about the mapper\<close>

lemma split_on_nonempty: "split_on sep s \<noteq> []"
  by (induction s) (auto split: list.splits)

lemma split_on_no_sep: "t \<in> set (split_on sep s) \<Longrightarrow> sep \<notin> set t"
proof (induction s arbitrary: t)
  case Nil
  then show ?case by simp
next
  case (Cons c s)
  then show ?case
    by (cases "split_on sep s") (auto split: if_splits simp add: split_on_nonempty)
qed

lemma row_doorStyle_no_space: "CHR '' '' \<notin> set (row_doorStyle row)"
proof -
  have "last (split_on CHR '' '' (row_collectionStyle row)) \<in> set (split_on CHR '' '' (row_collectionStyle row))"
    by (rule last_in_set) (rule split_on_nonempty)
  then have "CHR '' '' \<notin> set (last (split_on CHR '' '' (row_collectionStyle row)))"
    by (rule split_on_no_sep)
  then show ?thesis by (auto simp add: row_doorStyle_def or_str_def)
qed

lemma row_tagDoorStyle_cases:
  "row_tagDoorStyle row \<noteq> [] \<and>
   (\<not> str_includes (row_tags row) ''double-door'' \<longrightarrow> \<not> str_includes (row_tags row) ''single-door'' \<longrightarrow>
      CHR '' '' \<in> set (row_tagDoorStyle row))"
  by (simp add: row_tagDoorStyle_def)

lemma doorStyle_mapRow: "doorStyle (mapRow row) = row_tagDoorStyle row"
  using row_tagDoorStyle_cases [of row] by (simp add: mapRow_def or_str_def)

text \<open>
  The label computed from the tags is ``Double Door'', ``Single Door'', or the printed door
  count followed by `` Door''; the door count defaults to 1, so the label is never empty and
  the chain \<^verbatim>\<open>tagDoorStyle || doorStyle || ''\<close> of the returned object stops at it. The
  style token of the title (\<open>row_doorStyle\<close>) contains no space: for a row without a tag
  marker it is never the final \<open>doorStyle\<close>.
\<close>

lemma doorStyle_precedence:
  "doorStyle (mapRow row) =
     (if str_includes (row_tags row) ''double-door'' then ''Double Door''
      else if str_includes (row_tags row) ''single-door'' then ''Single Door''
      else toString (row_doors row) @ '' Door'')
   \<and> (\<not> str_includes (row_tags row) ''double-door'' \<longrightarrow>
      \<not> str_includes (row_tags row) ''single-door'' \<longrightarrow>
      doorStyle (mapRow row) \<noteq> row_doorStyle row)"
proof -
  have "doorStyle (mapRow row) = row_tagDoorStyle row" by (rule doorStyle_mapRow)
  moreover have "row_tagDoorStyle row \<noteq> row_doorStyle row"
    if "\<not> str_includes (row_tags row) ''double-door''" "\<not> str_includes (row_tags row) ''single-door''"
    using that row_tagDoorStyle_cases [of row] row_doorStyle_no_space [of row] by metis
  ultimately show ?thesis by (simp add: row_tagDoorStyle_def)
qed

lemma styled_doorStyle: "row_doorStyle styledRow = ''Blue''"
  by code_simp

lemma styled_tags: "row_tags styledRow = []"
  by code_simp

lemma styled_doorMatch: "match True doorPattern (row_shortDesc styledRow) = None"
  by code_simp

lemma styled_doors: "row_doors styledRow = Fin 1"
  by (simp add: row_doors_def styled_doorMatch group_of_def or_str_def parseInt_1 num_or_def)

lemma listed_price: "retailPrice (mapRow listedRow) = Fin 200"
  by (simp add: listedRow_def mapRow_def row_retailPrice_def or_opt_def or_str_def truthy_def
        num_or_def parseFloat_200)

lemma mapped_defaults:
  assumes "r \<in> set (mapToCabinetProduct rows)"
  shows "discount r = Fin 0 \<and> retailPrice r \<noteq> NaN"
  using assms
  by (auto simp add: mapToCabinetProduct_def mapRow_def row_retailPrice_def num_or_def
        split: if_splits)

section \<open>Facts about the import loop\<close>

lemma batchCount_less_iff:
  assumes "0 < b"
  shows "k < batchCount n b \<longleftrightarrow> k * b < n"
proof -
  have "k < nat \<lceil>real n / real b\<rceil> \<longleftrightarrow> int k < \<lceil>real n / real b\<rceil>" by linarith
  also have "\<dots> \<longleftrightarrow> real k < real n / real b" by (simp add: less_ceiling_iff)
  also have "\<dots> \<longleftrightarrow> real k * real b < real n" using assms by (simp add: pos_less_divide_eq)
  also have "\<dots> \<longleftrightarrow> k * b < n" by (metis of_nat_less_iff of_nat_mult)
  finally show ?thesis by (simp add: batchCount_def)
qed

lemma slice_length:
  assumes "i \<le> length xs"
  shows "i + length (slice i (i + b) xs) = min (length xs) (i + b)"
proof -
  have "length (slice i (i + b) xs) = min (length xs - i) b" by (simp add: slice_def)
  then show ?thesis using assms by arith
qed

lemma slice_nth:
  assumes "i \<le> length xs"
  shows "slice i (i + b) xs = map (\<lambda>j. xs ! j) [i ..< min (length xs) (i + b)]"
proof (rule nth_equalityI)
  show "length (slice i (i + b) xs) = length (map (\<lambda>j. xs ! j) [i ..< min (length xs) (i + b)])"
    using slice_length [OF assms, of b] by simp
next
  fix k
  assume k: "k < length (slice i (i + b) xs)"
  then have "k < b" "i + k < length xs" by (auto simp add: slice_def)
  moreover from k have "i + k < min (length xs) (i + b)" using slice_length [OF assms, of b] by linarith
  ultimately show "slice i (i + b) xs ! k = map (\<lambda>j. xs ! j) [i ..< min (length xs) (i + b)] ! k"
    by (simp add: slice_def)
qed

lemma slice_calls:
  assumes "i \<le> length xs"
  shows "zip [i ..< i + length (slice i (i + b) xs)] (map f (slice i (i + b) xs))
           = map (\<lambda>j. (j, f (xs ! j))) [i ..< min (length xs) (i + b)]"
proof -
  have "i + (min (length xs) (i + b) - i) = min (length xs) (i + b)" using assms by arith
  then show ?thesis
    unfolding slice_nth [OF assms]
    by (simp add: zip_map2 zip_same_conv_map comp_def)
qed

lemma importBatch_eq:
  assumes "i \<le> length (mappedRows c)"
  shows "importBatch create b i (c, tr) =
           (c\<lparr>importedCount :=
                importedCount c +
                succeeded create (importForm c) (mappedRows c) i (min (length (mappedRows c)) (i + b)),
              importProgress := progressAt (length (mappedRows c)) (min (length (mappedRows c)) (i + b))\<rparr>,
            tr @ map (\<lambda>j. Issue j (row_input (importForm c) (mappedRows c ! j)))
                   [i ..< min (length (mappedRows c)) (i + b)] @
                 map Settle [i ..< min (length (mappedRows c)) (i + b)] @
                 [Progress (progressAt (length (mappedRows c)) (min (length (mappedRows c)) (i + b)))])"
proof -
  have calls: "zip [i ..< i + length (slice i (i + b) (mappedRows c))]
                 (map (row_input (importForm c)) (slice i (i + b) (mappedRows c)))
               = map (\<lambda>j. (j, row_input (importForm c) (mappedRows c ! j)))
                   [i ..< min (length (mappedRows c)) (i + b)]"
    using assms by (rule slice_calls)
  show ?thesis
    unfolding importBatch_def Let_def fst_conv snd_conv calls
    unfolding slice_length [OF assms]
    by (simp add: succeeded_def progressAt_def comp_def length_filter_map)
qed

lemma succeeded_add:
  assumes "i \<le> j" "j \<le> l"
  shows "succeeded create d rows i j + succeeded create d rows j l = succeeded create d rows i l"
proof -
  have "[i ..< l] = [i ..< j] @ [j ..< l]" using assms by (metis le_Suc_ex upt_add_eq_append)
  then show ?thesis by (simp add: succeeded_def)
qed

lemma batchEvents_eq:
  "batchEvents d rows b k =
     map (\<lambda>j. Issue j (row_input d (rows ! j))) [k * b ..< min (length rows) (k * b + b)] @
     map Settle [k * b ..< min (length rows) (k * b + b)] @
     [Progress (progressAt (length rows) (min (length rows) (k * b + b)))]"
  by (simp add: batchEvents_def Let_def)

lemma importLoop_run:
  assumes "0 < b"
  shows "k * b < length (mappedRows c) \<Longrightarrow>
     importLoop create b (k * b) (c, tr) =
       Some (c\<lparr>importedCount :=
                  importedCount c +
                  succeeded create (importForm c) (mappedRows c) (k * b) (length (mappedRows c)),
                importProgress := progressAt (length (mappedRows c)) (length (mappedRows c))\<rparr>,
             tr @ concat (map (batchEvents (importForm c) (mappedRows c) b)
                            [k ..< batchCount (length (mappedRows c)) b]))"
proof (induction "batchCount (length (mappedRows c)) b - k" arbitrary: k c tr)
  case 0
  then have "\<not> k < batchCount (length (mappedRows c)) b" by simp
  with "0.prems" show ?case by (simp add: batchCount_less_iff [OF assms])
next
  case (Suc m)
  let ?n = "length (mappedRows c)"
  let ?j = "min ?n (k * b + b)"
  let ?c' = "c\<lparr>importedCount :=
                  importedCount c + succeeded create (importForm c) (mappedRows c) (k * b) ?j,
                importProgress := progressAt ?n ?j\<rparr>"
  let ?tr' = "tr @ batchEvents (importForm c) (mappedRows c) b k"
  have k: "k < batchCount ?n b" using Suc.prems by (simp add: batchCount_less_iff [OF assms])
  have step: "importLoop create b (k * b) (c, tr) = importLoop create b (Suc k * b) (?c', ?tr')"
    using Suc.prems
    by (subst importLoop.simps) (simp add: importBatch_eq batchEvents_eq add.commute)
  show ?case
  proof (cases "Suc k * b < ?n")
    case True
    then have j: "?j = Suc k * b" by simp
    have "m = batchCount (length (mappedRows ?c')) b - Suc k" using Suc.hyps(2) by simp
    moreover have "Suc k * b < length (mappedRows ?c')" using True by simp
    ultimately have "importLoop create b (Suc k * b) (?c', ?tr') =
        Some (?c'\<lparr>importedCount :=
                  importedCount ?c' +
                  succeeded create (importForm ?c') (mappedRows ?c') (Suc k * b) (length (mappedRows ?c')),
                importProgress := progressAt (length (mappedRows ?c')) (length (mappedRows ?c'))\<rparr>,
             ?tr' @ concat (map (batchEvents (importForm ?c') (mappedRows ?c') b)
                            [Suc k ..< batchCount (length (mappedRows ?c')) b]))"
      by (rule Suc.hyps(1))
    moreover have "succeeded create (importForm c) (mappedRows c) (k * b) (Suc k * b) +
                   succeeded create (importForm c) (mappedRows c) (Suc k * b) ?n =
                   succeeded create (importForm c) (mappedRows c) (k * b) ?n"
      using True by (intro succeeded_add) simp_all
    ultimately show ?thesis
      unfolding step using k by (simp add: j upt_conv_Cons add.assoc)
  next
    case False
    then have j: "?j = ?n" by simp
    from False have last: "batchCount ?n b = Suc k"
      using k batchCount_less_iff [OF assms, of "Suc k" ?n] by simp
    have "importLoop create b (Suc k * b) (?c', ?tr') = Some (?c', ?tr')"
      using False by (subst importLoop.simps) simp
    then show ?thesis unfolding step by (simp add: j last)
  qed
qed

lemma importRows_run:
  assumes "\<not> form_invalid (importForm c)" "mappedRows c \<noteq> []" "0 < b"
  shows "importRows create b c =
     Some (let n = length (mappedRows c);
               cnt = succeeded create (importForm c) (mappedRows c) 0 n;
               c2 = c\<lparr>isImporting := False, importProgress := progressAt n n, importedCount := cnt,
                       errorMessage := None, successMessage := None\<rparr>
           in if cnt = n
              then c2\<lparr>successMessage := Some (''Successfully imported '' @ showNat cnt @ '' rows!'')\<rparr>
              else c2\<lparr>errorMessage := Some (''Imported '' @ showNat cnt @ '' of '' @ showNat n @
                                             '' rows. Check console for errors.'')\<rparr>,
           concat (map (batchEvents (importForm c) (mappedRows c) b)
                     [0 ..< batchCount (length (mappedRows c)) b]))"
proof -
  let ?c0 = "c\<lparr>isImporting := True, importProgress := Fin 0, importedCount := 0,
                errorMessage := None, successMessage := None\<rparr>"
  have "0 * b < length (mappedRows ?c0)" using assms(2) by simp
  from importLoop_run [OF assms(3) this, of create "[]"]
  show ?thesis using assms(1,2) by (simp add: importRows_def Let_def)
qed

lemma issues_of_batch:
  "filter is_issue (batchEvents d rows b k) =
     map (\<lambda>j. Issue j (row_input d (rows ! j))) [k * b ..< min (length rows) (k * b + b)]"
  by (simp add: batchEvents_eq is_issue_def filter_map comp_def)

lemma progress_of_batch:
  "progress_values (batchEvents d rows b k) = [progressAt (length rows) (min (length rows) (k * b + b))]"
  by (simp add: batchEvents_eq progress_values_def comp_def)

lemma progress_values_concat:
  "progress_values (concat xss) = concat (map progress_values xss)"
  by (induction xss) (simp_all add: progress_values_def)

lemma ranges_concat:
  "concat (map (\<lambda>k. map f [k * b ..< min n (k * b + b)]) [0 ..< m]) = map f [0 ..< min n (m * b)]"
proof (induction m)
  case 0
  then show ?case by simp
next
  case (Suc m)
  have "[0 ..< min n (Suc m * b)] = [0 ..< min n (m * b)] @ [m * b ..< min n (m * b + b)]"
  proof (cases "m * b \<le> n")
    case True
    then have "min n (m * b) = m * b" by simp
    moreover have "[0 ..< min n (m * b + b)] = [0 ..< m * b] @ [m * b ..< min n (m * b + b)]"
      using True by (metis le_Suc_ex min.boundedI le_add1 upt_add_eq_append zero_le)
    ultimately show ?thesis by (simp add: add.commute)
  next
    case False
    then show ?thesis by (simp add: min_def)
  qed
  with Suc show ?case by simp
qed

lemma issues_of_run:
  assumes "0 < b"
  shows "filter is_issue (concat (map (batchEvents d rows b) [0 ..< batchCount (length rows) b]))
           = map (\<lambda>j. Issue j (row_input d (rows ! j))) [0 ..< length rows]"
proof -
  have "\<not> batchCount (length rows) b * b < length rows"
    using batchCount_less_iff [OF assms, of "batchCount (length rows) b" "length rows"] by simp
  then have "min (length rows) (batchCount (length rows) b * b) = length rows" by simp
  then show ?thesis
    using ranges_concat [of "\<lambda>j. Issue j (row_input d (rows ! j))" b "length rows"
            "batchCount (length rows) b"]
    by (simp add: filter_concat comp_def issues_of_batch)
qed

lemma batch_of_index:
  fixes b j k :: nat
  assumes "k * b \<le> j" "j < k * b + b"
  shows "j div b = k"
  by (rule div_nat_eqI) (use assms in \<open>simp_all add: mult.commute\<close>)

lemma settled_upto:
  assumes "0 < b" "j < min (length rows) (m * b)"
  shows "Settle j \<in> set (concat (map (batchEvents d rows b) [0 ..< m]))"
proof -
  let ?k = "j div b"
  have "?k * b \<le> j" by simp
  moreover have "j < ?k * b + b" using assms(1) dividend_less_div_times [of b j] by simp
  moreover have "?k < m" using assms by (simp add: less_mult_imp_div_less)
  ultimately have "Settle j \<in> set (batchEvents d rows b ?k)" "?k \<in> set [0 ..< m]"
    using assms(2) by (auto simp add: batchEvents_eq)
  then show ?thesis by auto
qed

lemma ordered_prefix:
  assumes "0 < b"
  shows "concat (map (batchEvents d rows b) [0 ..< m]) = pre @ Issue j x # post \<Longrightarrow>
         j' div b < j div b \<Longrightarrow> Settle j' \<in> set pre"
proof (induction m arbitrary: pre post)
  case 0
  then show ?case by simp
next
  case (Suc m)
  let ?T = "concat (map (batchEvents d rows b) [0 ..< m])"
  let ?B = "batchEvents d rows b m"
  from Suc.prems(1) have "?T @ ?B = pre @ Issue j x # post" by simp
  then consider (old) us where "?T = pre @ Issue j x # us"
    | (new) us where "pre = ?T @ us" "?B = us @ Issue j x # post"
    by (auto simp add: append_eq_append_conv2 append_eq_Cons_conv Cons_eq_append_conv)
  then show ?case
  proof cases
    case old
    then show ?thesis using Suc.IH Suc.prems(2) by blast
  next
    case new
    then have "Issue j x \<in> set ?B" by simp
    then have j: "m * b \<le> j" "j < min (length rows) (m * b + b)"
      by (auto simp add: batchEvents_eq)
    then have "j div b = m" by (intro batch_of_index) simp_all
    with Suc.prems(2) have "j' < m * b" using assms
      by (simp add: div_less_iff_less_mult)
    moreover have "m * b < length rows" using j by simp
    ultimately have "j' < min (length rows) (m * b)" by simp
    from settled_upto [OF assms this] new(1) show ?thesis by simp
  qed
qed

lemma roundMag_1: "roundMag 1 = 1"
  using roundMag_nat [of 1] by simp

lemma roundMag_100: "roundMag 100 = 100"
  using roundMag_nat [of 100] by simp

lemma fl_unit:
  assumes "0 \<le> q" "q \<le> 1"
  shows "fl q = Fin (roundMag q) \<and> 0 \<le> roundMag q \<and> roundMag q \<le> 1"
proof -
  have "roundMag q \<le> 1" using roundMag_mono [OF assms] by (simp add: roundMag_1)
  moreover have "(1::real) < 2 ^ 1024" by simp
  ultimately show ?thesis using assms(1) roundMag_nonneg [OF assms(1)] by (simp add: fl_nonneg)
qed

lemma fl_percent:
  assumes "0 \<le> q" "q \<le> 100"
  shows "fl q = Fin (roundMag q) \<and> 0 \<le> roundMag q \<and> roundMag q \<le> 100"
proof -
  have "roundMag q \<le> 100" using roundMag_mono [OF assms] by (simp add: roundMag_100)
  moreover have "(100::real) < 2 ^ 1024" by simp
  ultimately show ?thesis using assms(1) roundMag_nonneg [OF assms(1)] by (simp add: fl_nonneg)
qed

lemma percent_range:
  assumes "0 < n" "j \<le> n"
  shows "progressAt n j = Fin (of_int \<lfloor>percent n j + 1 / 2\<rfloor>) \<and> 0 \<le> percent n j \<and> percent n j \<le> 100"
proof -
  have q: "0 \<le> real j / real n" "real j / real n \<le> 1" using assms by simp_all
  note a = fl_unit [OF q]
  then have "0 \<le> roundMag (real j / real n) * 100" "roundMag (real j / real n) * 100 \<le> 100"
    by simp_all
  note b = fl_percent [OF this]
  show ?thesis using assms a b by (simp add: progressAt_def percent_def)
qed

lemma percent_mono:
  assumes "0 < n" "j \<le> j'"
  shows "percent n j \<le> percent n j'"
proof -
  have "real j / real n \<le> real j' / real n" using assms by (simp add: divide_right_mono)
  moreover have "0 \<le> real j / real n" by simp
  ultimately have "roundMag (real j / real n) \<le> roundMag (real j' / real n)" by (intro roundMag_mono)
  moreover have "0 \<le> roundMag (real j / real n)" by (intro roundMag_nonneg) simp
  ultimately show ?thesis unfolding percent_def by (intro roundMag_mono) simp_all
qed

lemma progressAt_mono:
  assumes "0 < n" "j \<le> j'" "j' \<le> n"
  shows "num_le (progressAt n j) (progressAt n j')"
proof -
  have "\<lfloor>percent n j + 1 / 2\<rfloor> \<le> \<lfloor>percent n j' + 1 / 2\<rfloor>"
    using percent_mono [OF assms(1,2)] by (intro floor_mono) simp
  then show ?thesis
    using percent_range [OF assms(1), of j] percent_range [OF assms(1,3)] assms
    by simp
qed

lemma progressAt_range:
  assumes "0 < n" "j \<le> n"
  shows "num_le (Fin 0) (progressAt n j) \<and> num_le (progressAt n j) (Fin 100)"
proof -
  from percent_range [OF assms]
  have p: "progressAt n j = Fin (of_int \<lfloor>percent n j + 1 / 2\<rfloor>)" "0 \<le> percent n j" "percent n j \<le> 100"
    by simp_all
  have "0 \<le> \<lfloor>percent n j + 1 / 2\<rfloor>" using p(2) by simp
  moreover have "\<lfloor>percent n j + 1 / 2\<rfloor> \<le> 100" using p(3) by (simp add: floor_le_iff)
  ultimately have "(0::real) \<le> of_int \<lfloor>percent n j + 1 / 2\<rfloor>"
    "real_of_int \<lfloor>percent n j + 1 / 2\<rfloor> \<le> 100" by linarith+
  then show ?thesis unfolding p(1) by simp
qed

lemma progressAt_full:
  assumes "0 < n"
  shows "progressAt n n = Fin 100"
proof -
  have "percent n n = 100" using assms by (simp add: percent_def roundMag_1 roundMag_100)
  then show ?thesis using percent_range [OF assms, of n] by simp
qed

lemma percent_value:
  assumes "0 < n" "j \<le> n"
  shows "fmul (fdiv (Fin (real j)) (Fin (real n))) (Fin 100) = Fin (percent n j)"
proof -
  have q: "0 \<le> real j / real n" "real j / real n \<le> 1" using assms by simp_all
  note a = fl_unit [OF q]
  then have "0 \<le> roundMag (real j / real n) * 100" "roundMag (real j / real n) * 100 \<le> 100"
    by simp_all
  note b = fl_percent [OF this]
  show ?thesis using assms a b by (simp add: percent_def)
qed

lemma percent_err:
  assumes "0 < n" "j \<le> n"
  shows "\<bar>percent n j - real j / real n * 100\<bar> \<le> 1 / 2 ^ 45"
proof -
  define x where "x = real j / real n"
  define r where "r = roundMag x"
  have x: "0 \<le> x" "x \<le> 1" using assms by (simp_all add: x_def)
  have r: "0 \<le> r" "r \<le> 1" using fl_unit [OF x] by (simp_all add: r_def)
  have e1: "\<bar>r - x\<bar> \<le> 1 / 2 ^ 53" unfolding r_def by (rule roundMag_err_unit [OF x])
  have "0 \<le> r * 100" "r * 100 \<le> 100" using r by simp_all
  then have e2: "\<bar>roundMag (r * 100) - r * 100\<bar> \<le> 1 / 2 ^ 47" by (rule roundMag_err_percent)
  have "r * 100 - x * 100 = (r - x) * 100" by (simp add: algebra_simps)
  then have "\<bar>r * 100 - x * 100\<bar> = \<bar>r - x\<bar> * \<bar>100\<bar>" by (simp only: abs_mult)
  then have "\<bar>r * 100 - x * 100\<bar> = \<bar>r - x\<bar> * 100" by simp
  then have "\<bar>roundMag (r * 100) - x * 100\<bar> \<le> \<bar>roundMag (r * 100) - r * 100\<bar> + \<bar>r - x\<bar> * 100"
    by linarith
  also have "\<dots> \<le> 1 / 2 ^ 47 + 1 / 2 ^ 53 * 100"
    using e1 e2 by (intro add_mono mult_right_mono) simp_all
  also have "\<dots> \<le> 1 / 2 ^ 45" by simp
  finally show ?thesis by (simp add: percent_def r_def x_def)
qed

lemma away_from_half:
  assumes "0 < n" "\<not> halfway n j"
  shows "1 / (2 * real n) \<le> \<bar>real j / real n * 100 - (real_of_int k + 1 / 2)\<bar>"
proof -
  define d :: int where "d = 200 * int j - (2 * k + 1) * int n"
  have "d \<noteq> 0"
  proof
    assume "d = 0"
    then have eq: "200 * int j = (2 * k + 1) * int n" by (simp add: d_def)
    then have "int n dvd int (200 * j)" by simp
    then have dv: "n dvd 200 * j" by (simp only: int_dvd_int_iff)
    have "int (200 * j div n) = (2 * k + 1) * int n div int n"
      using eq by (simp add: zdiv_int)
    also have "\<dots> = 2 * k + 1" using assms(1) by simp
    finally have "odd (int (200 * j div n))" by simp
    then have "odd (200 * j div n)" by simp
    with dv assms(2) show False by (simp add: halfway_def)
  qed
  then have "1 \<le> \<bar>d\<bar>" by linarith
  then have "1 \<le> \<bar>real_of_int d\<bar>" by linarith
  moreover have "real j / real n * 100 - (real_of_int k + 1 / 2) = real_of_int d / (2 * real n)"
    using assms(1) by (simp add: d_def field_simps)
  moreover have "\<bar>real_of_int d / (2 * real n)\<bar> = \<bar>real_of_int d\<bar> / (2 * real n)"
    using assms(1) by (simp add: abs_divide)
  ultimately show ?thesis using assms(1) by (simp add: divide_right_mono)
qed

lemma floor_half_stable:
  fixes q y :: real
  assumes "\<bar>q - y\<bar> < e" "\<And>k. e \<le> \<bar>y - (real_of_int k + 1 / 2)\<bar>"
  shows "\<lfloor>q + 1 / 2\<rfloor> = \<lfloor>y + 1 / 2\<rfloor>"
proof -
  define k where "k = \<lfloor>y + 1 / 2\<rfloor>"
  have y: "real_of_int k \<le> y + 1 / 2" "y + 1 / 2 < real_of_int k + 1"
    unfolding k_def by linarith+
  have "e \<le> \<bar>y - (real_of_int (k - 1) + 1 / 2)\<bar>" by (rule assms(2))
  then have lo: "e \<le> \<bar>y - (real_of_int k - 1 + 1 / 2)\<bar>" by simp
  have hi: "e \<le> \<bar>y - (real_of_int k + 1 / 2)\<bar>" by (rule assms(2))
  have "real_of_int k \<le> q + 1 / 2" using y lo assms(1) by linarith
  moreover have "q + 1 / 2 < real_of_int k + 1" using y hi assms(1) by linarith
  ultimately have "\<lfloor>q + 1 / 2\<rfloor> = k" by (rule floor_unique)
  then show ?thesis by (simp only: k_def)
qed

lemma percent_exact:
  assumes "0 < n" "j \<le> n" "n < 2 ^ 44" "\<not> halfway n j"
  shows "\<lfloor>percent n j + 1 / 2\<rfloor> = exactPercent n j"
proof -
  have "real n < 2 ^ 44" using assms(3)
    by (metis of_nat_less_iff of_nat_numeral of_nat_power)
  then have "2 * real n < 2 ^ 45" by simp
  then have "1 / 2 ^ 45 < 1 / (2 * real n)" using assms(1) by (intro divide_strict_left_mono) simp_all
  with percent_err [OF assms(1,2)]
  have "\<bar>percent n j - real j / real n * 100\<bar> < 1 / (2 * real n)" by linarith
  then show ?thesis
    unfolding exactPercent_def
    by (rule floor_half_stable) (rule away_from_half [OF assms(1,4)])
qed

lemma percent_halfway:
  assumes "0 < n" "j \<le> n" "halfway n j"
  shows "\<lfloor>percent n j + 1 / 2\<rfloor> = exactPercent n j - 1 \<or> \<lfloor>percent n j + 1 / 2\<rfloor> = exactPercent n j"
proof -
  from assms(3) obtain k where k: "200 * j div n = 2 * k + 1" and dv: "n dvd 200 * j"
    by (auto simp add: halfway_def elim: oddE)
  from dv k have "200 * j = (2 * k + 1) * n" by (metis dvd_div_mult_self)
  then have "real (200 * j) = real ((2 * k + 1) * n)" by simp
  then have y: "real j / real n * 100 = real k + 1 / 2" using assms(1) by (simp add: field_simps)
  have "(1::real) / 2 ^ 45 < 1 / 2" by simp
  with percent_err [OF assms(1,2)] have "\<bar>percent n j - (real k + 1 / 2)\<bar> < 1 / 2"
    unfolding y by linarith
  moreover have "exactPercent n j = int k + 1"
  proof -
    have "real k + 1 / 2 + 1 / 2 = real_of_int (int k + 1)" by simp
    then show ?thesis unfolding exactPercent_def y by (simp only: floor_of_int)
  qed
  ultimately show ?thesis by linarith
qed

lemma progressAt_exact:
  assumes "0 < n" "j \<le> n" "n < 2 ^ 32"
  shows "progressAt n j = Fin (of_int (exactPercent n j)) \<or>
         halfway n j \<and> progressAt n j = Fin (of_int (exactPercent n j - 1))"
proof -
  have p: "progressAt n j = Fin (of_int \<lfloor>percent n j + 1 / 2\<rfloor>)"
    using percent_range [OF assms(1,2)] by simp
  have "(2::nat) ^ 32 \<le> 2 ^ 44" by simp
  with assms(3) have n: "n < 2 ^ 44" by linarith
  show ?thesis
  proof (cases "halfway n j")
    case True
    with percent_halfway [OF assms(1,2)] show ?thesis unfolding p by auto
  next
    case False
    with percent_exact [OF assms(1,2) n] show ?thesis unfolding p by simp
  qed
qed

lemma fl_2_5: "fl (2 / 5) = Fin (3602879701896397 / 9007199254740992)"
  by (subst fl_eval [where e = "- 2"]) (simp_all add: roundHalfEven_def)

lemma fl_2_5_100: "fl (3602879701896397 / 9007199254740992 * 100) = Fin 40"
  by (subst fl_eval [where e = "5"]) (simp_all add: roundHalfEven_def)

lemma fl_4_5: "fl (4 / 5) = Fin (3602879701896397 / 4503599627370496)"
  by (subst fl_eval [where e = "- 1"]) (simp_all add: roundHalfEven_def)

lemma fl_4_5_100: "fl (3602879701896397 / 4503599627370496 * 100) = Fin 80"
  by (subst fl_eval [where e = "6"]) (simp_all add: roundHalfEven_def)

lemma progress_25:
  "progressAt 25 10 = Fin 40" "progressAt 25 20 = Fin 80"
  using fl_2_5_100 fl_4_5_100
  by (simp_all add: progressAt_def fl_2_5 fl_4_5)

lemma fl_23_40: "fl (23 / 40) = Fin (2589569785738035 / 4503599627370496)"
  by (subst fl_eval [where e = "- 1"]) (simp_all add: roundHalfEven_def)

lemma fl_23_40_100: "fl (2589569785738035 / 4503599627370496 * 100) = Fin (8092405580431359 / 140737488355328)"
  by (subst fl_eval [where e = "5"]) (simp_all add: roundHalfEven_def)

lemma progress_400: "progressAt 400 230 = Fin 57"
  using fl_23_40_100 by (simp add: progressAt_def fl_23_40)

lemma fl_5_8: "fl (5 / 8) = Fin (5 / 8)"
  by (subst fl_eval [where e = "- 1"]) (simp_all add: roundHalfEven_def)

lemma fl_125_2: "fl (125 / 2) = Fin (125 / 2)"
  by (subst fl_eval [where e = "5"]) (simp_all add: roundHalfEven_def)

lemma percent_16: "percent 16 10 = 125 / 2"
proof -
  have "fmul (fdiv (Fin (real 10)) (Fin (real 16))) (Fin 100) = Fin (percent 16 10)"
    by (rule percent_value) simp_all
  then show ?thesis using fl_125_2 by (simp add: fl_5_8)
qed

lemma exact_400: "exactPercent 400 230 = 58" "halfway 400 230"
  by (simp_all add: exactPercent_def halfway_def)

lemma batch_sizes:
  assumes "0 < b" "k < batchCount n b"
  shows "0 < min n (k * b + b) - k * b \<and> min n (k * b + b) - k * b \<le> b \<and>
         (Suc k < batchCount n b \<longrightarrow> min n (k * b + b) - k * b = b)"
proof -
  have "k * b < n" using assms by (simp add: batchCount_less_iff)
  moreover have "Suc k < batchCount n b \<longrightarrow> k * b + b < n"
    using batchCount_less_iff [OF assms(1), of "Suc k" n] by (simp add: add.commute)
  ultimately show ?thesis using assms(1) by auto
qed

lemma progress_of_run:
  "progress_values (concat (map (batchEvents d rows b) [0 ..< m]))
     = map (\<lambda>k. progressAt (length rows) (min (length rows) (k * b + b))) [0 ..< m]"
proof -
  have "concat (map (\<lambda>k. [f k]) xs) = map f xs" for f :: "nat \<Rightarrow> number" and xs
    by (induction xs) simp_all
  then show ?thesis
    by (simp add: progress_values_concat progress_of_batch comp_def)
qed

lemma progress_run_nth:
  assumes "k < m"
  shows "progress_values (concat (map (batchEvents d rows b) [0 ..< m])) ! k
           = progressAt (length rows) (processed (length rows) b k)"
  using assms by (simp add: progress_of_run processed_def)

lemma succeeded_card:
  "succeeded create d rows 0 n = card {j. j < n \<and> create j (row_input d (rows ! j)) \<noteq> None}"
proof -
  have "length (filter P [0 ..< n]) = card {j. j < n \<and> P j}" for P :: "nat \<Rightarrow> bool"
    using length_filter_conv_card [of P "[0 ..< n]"]
    by (simp cong: conj_cong)
  then show ?thesis by (simp add: succeeded_def)
qed

lemma succeeded_le: "succeeded create d rows 0 n \<le> n"
  using length_filter_le [of _ "[0 ..< n]"] by (simp add: succeeded_def)

lemma succeeded_all:
  "succeeded create d rows 0 n = n \<longleftrightarrow> (\<forall>j < n. create j (row_input d (rows ! j)) \<noteq> None)"
proof -
  have "length (filter P xs) = length xs \<longleftrightarrow> (\<forall>x \<in> set xs. P x)" for P :: "nat \<Rightarrow> bool" and xs
  proof (induction xs)
    case Nil
    then show ?case by simp
  next
    case (Cons a xs)
    have le: "length (filter P xs) \<le> length xs" by simp
    show ?case
    proof (cases "P a")
      case True
      with Cons show ?thesis by simp
    next
      case False
      moreover from le have "length (filter P xs) \<noteq> Suc (length xs)" by linarith
      ultimately show ?thesis by simp
    qed
  qed
  from this [of _ "[0 ..< n]"] show ?thesis by (auto simp add: succeeded_def)
qed

lemma succeeded_one_failure:
  assumes "f < n" "create f (row_input d (rows ! f)) = None"
    "\<forall>j < n. j \<noteq> f \<longrightarrow> create j (row_input d (rows ! j)) \<noteq> None"
  shows "succeeded create d rows 0 n = n - 1"
proof -
  have "{j. j < n \<and> create j (row_input d (rows ! j)) \<noteq> None} = {..<n} - {f}"
    using assms by auto
  then show ?thesis using assms(1) by (simp add: succeeded_card)
qed

lemma sample_valid: "\<not> form_invalid (importForm (sampleSession k))"
  by (simp add: sampleSession_def form_invalid_def)

lemma sample_rows: "mappedRows (sampleSession k) = replicate k (mapRow sampleRow)"
  by (simp add: sampleSession_def)

lemma sample_run_400:
  "\<exists>c'. onImportRows accepting (sampleSession 400)
          = Some (c', concat (map (batchEvents (importForm (sampleSession 400))
                                     (mappedRows (sampleSession 400)) 10) [0 ..< 40]))"
proof -
  have r: "mappedRows (sampleSession 400) \<noteq> []" by (simp add: sample_rows)
  have b: "(0::nat) < 10" by simp
  have "batchCount 400 10 = 40" by (simp add: batchCount_def)
  with importRows_run [OF sample_valid r b, where create = accepting]
  show ?thesis by (simp add: onImportRows_def batchSize_def Let_def sample_rows)
qed

section \<open>The claims\<close>

subsection \<open>C1: the final door style\<close>

text \<open>
  Claim C1 says that the final \<open>doorStyle\<close> is ``Double Door'' or ``Single Door'' when the
  tags carry the marker, else falls back to the door-count label, then to the style token of
  the title, then to ``Shaker'', and that for some row without a tag marker the title token
  is the final \<open>doorStyle\<close>. The mapper computes the title token and names it in its
  chain, but never returns it (\<open>doorStyle_precedence\<close>). At \<open>styledRow\<close>, which has no
  tags and no description, hence neither a tag marker nor a door count, and whose title gives
  the collection style ``Midnight Blue'' and the token ``Blue'', the final \<open>doorStyle\<close> is
  ``1 Door'', the label of the default door count.
\<close>

theorem C1_title_token_not_reached:
  "styledRow ''Tags'' = None \<and> styledRow ''Short description'' = None
   \<and> row_collectionStyle styledRow = ''Midnight Blue'' \<and> row_doorStyle styledRow = ''Blue''
   \<and> row_doors styledRow = Fin 1
   \<and> doorStyle (mapRow styledRow) = ''1 Door''"
proof -
  have "row_collectionStyle styledRow = ''Midnight Blue''" by code_simp
  moreover have "styledRow ''Tags'' = None \<and> styledRow ''Short description'' = None"
    by (simp add: styledRow_def)
  moreover have "doorStyle (mapRow styledRow) = ''1 Door''"
    by (simp add: doorStyle_mapRow row_tagDoorStyle_def styled_tags styled_doors toString_1)
  ultimately show ?thesis by (simp add: styled_doorStyle styled_doors)
qed

subsection \<open>C2: the retail price\<close>

text \<open>
  Claim C2, as amended. For every raw row the mapped \<open>retailPrice\<close> is decided by the first
  non-empty column among `Regular price' and `Sale price', in that order: it is the number
  that column parses to, and 0 when it does not parse; it is 0 when both columns are empty
  or missing. A non-empty `Regular price' that does not parse gives 0: the `Sale price' is
  not consulted.
\<close>

theorem C2_retailPrice_first_nonempty:
  "(\<forall>s. row ''Regular price'' = Some s \<and> s \<noteq> [] \<longrightarrow>
        retailPrice (mapRow row) = (if parseFloat s = NaN then Fin 0 else parseFloat s))
   \<and> (\<forall>s. \<not> truthy (row ''Regular price'') \<and> row ''Sale price'' = Some s \<and> s \<noteq> [] \<longrightarrow>
        retailPrice (mapRow row) = (if parseFloat s = NaN then Fin 0 else parseFloat s))
   \<and> (\<not> truthy (row ''Regular price'') \<and> \<not> truthy (row ''Sale price'') \<longrightarrow>
        retailPrice (mapRow row) = Fin 0)"
  by (auto simp add: mapRow_def row_retailPrice_def or_opt_def or_str_def truthy_def num_or_def
        parseFloat_0 split: option.splits)

text \<open>
  The claim as stated fails at \<open>pricedRow\<close>: `Regular price' is \<^verbatim>\<open>abc\<close>, which does not parse,
  `Sale price' is \<^verbatim>\<open>12.5\<close>, which parses to 12.5, and the mapped \<open>retailPrice\<close> is 0.
\<close>

theorem C2_sale_price_counterexample:
  "pricedRow ''Regular price'' = Some ''abc'' \<and> parseFloat ''abc'' = NaN
   \<and> pricedRow ''Sale price'' = Some ''12.5'' \<and> parseFloat ''12.5'' = Fin 12.5
   \<and> retailPrice (mapRow pricedRow) = Fin 0
   \<and> retailPrice (mapRow pricedRow) \<noteq> parseFloat ''12.5''"
  by (simp add: pricedRow_def mapRow_def row_retailPrice_def or_opt_def or_str_def truthy_def
        num_or_def parseFloat_abc parseFloat_12_5)

text \<open>
  The amended statement at \<open>pricedRow\<close>, whose `Regular price' is not empty, at \<open>saleRow\<close>,
  whose `Regular price' is empty and whose `Sale price' is not, and at \<open>taggedRow\<close>, which has
  neither price column.
\<close>

theorem C2_retailPrice_first_nonempty_witness:
  "pricedRow ''Regular price'' = Some ''abc'' \<and> ''abc'' \<noteq> []
   \<and> retailPrice (mapRow pricedRow) = (if parseFloat ''abc'' = NaN then Fin 0 else parseFloat ''abc'')
   \<and> \<not> truthy (saleRow ''Regular price'') \<and> saleRow ''Sale price'' = Some ''15'' \<and> ''15'' \<noteq> []
   \<and> retailPrice (mapRow saleRow) = (if parseFloat ''15'' = NaN then Fin 0 else parseFloat ''15'')
   \<and> \<not> truthy (taggedRow ''Regular price'') \<and> \<not> truthy (taggedRow ''Sale price'')
   \<and> retailPrice (mapRow taggedRow) = Fin 0"
proof -
  have a: "pricedRow ''Regular price'' = Some ''abc'' \<and> ''abc'' \<noteq> []"
    by (simp add: pricedRow_def)
  have b: "\<not> truthy (saleRow ''Regular price'') \<and> saleRow ''Sale price'' = Some ''15'' \<and> ''15'' \<noteq> []"
    by (simp add: saleRow_def truthy_def)
  have c: "\<not> truthy (taggedRow ''Regular price'') \<and> \<not> truthy (taggedRow ''Sale price'')"
    by (simp add: taggedRow_def truthy_def)
  from C2_retailPrice_first_nonempty [of pricedRow] a
  have "retailPrice (mapRow pricedRow) = (if parseFloat ''abc'' = NaN then Fin 0 else parseFloat ''abc'')"
    by blast
  moreover from C2_retailPrice_first_nonempty [of saleRow] b
  have "retailPrice (mapRow saleRow) = (if parseFloat ''15'' = NaN then Fin 0 else parseFloat ''15'')"
    by blast
  moreover from C2_retailPrice_first_nonempty [of taggedRow] c
  have "retailPrice (mapRow taggedRow) = Fin 0" by blast
  ultimately show ?thesis using a b c by blast
qed

subsection \<open>C3: the input of the create-operation\<close>

text \<open>
  Claim C3. For every mapped record \<open>r\<close> and every defaults configuration: when the discount
  override is a number \<open>d\<close> in [0, 100] and the record's \<open>retailPrice\<close> is \<open>p \<ge> 0\<close>, the input
  built for the create-operation (\<open>row_input\<close>, the value every \<open>Issue\<close> event carries) has
  \<open>discountPrice = p * (1 - d / 100)\<close>, computed in double arithmetic as the source writes
  it; its \<open>publish\<close> and \<open>discount\<close> fields are the configured override when that override is
  defined and the record's own value otherwise.
\<close>

theorem C3_create_input:
  assumes "r \<in> set (mapToCabinetProduct rows)"
  shows "(\<forall>d p. defaultDiscount defaults = Some d \<and> num_le (Fin 0) d \<and> num_le d (Fin 100) \<and>
                retailPrice r = p \<and> num_le (Fin 0) p \<longrightarrow>
            discountPrice (row_input defaults r) = fmul p (fsub (Fin 1) (fdiv d (Fin 100))))
       \<and> publish (row_input defaults r) =
           (case defaultPublish defaults of Some v \<Rightarrow> v | None \<Rightarrow> publish r)
       \<and> discount (row_input defaults r) =
           (case defaultDiscount defaults of Some d \<Rightarrow> d | None \<Rightarrow> discount r)"
  using mapped_defaults [OF assms]
  by (auto simp add: row_input_def toNumber_def num_or_def Let_def split: option.splits)

text \<open>
  At the record mapped from \<open>listedRow\<close> (retail price 200): with the overrides publish = true
  and discount = 25 the input has discount price 150; with no override it keeps the record's
  own publish flag and discount.
\<close>

theorem C3_create_input_witness:
  "mapRow listedRow \<in> set (mapToCabinetProduct [listedRow])
   \<and> num_le (Fin 0) (Fin 25) \<and> num_le (Fin 25) (Fin 100)
   \<and> retailPrice (mapRow listedRow) = Fin 200 \<and> num_le (Fin 0) (Fin 200)
   \<and> discountPrice (row_input \<lparr>defaultPublish = Some True, defaultDiscount = Some (Fin 25)\<rparr>
                      (mapRow listedRow)) = Fin 150
   \<and> publish (row_input \<lparr>defaultPublish = Some True, defaultDiscount = Some (Fin 25)\<rparr>
                (mapRow listedRow))
   \<and> discount (row_input \<lparr>defaultPublish = Some True, defaultDiscount = Some (Fin 25)\<rparr>
                 (mapRow listedRow)) = Fin 25
   \<and> publish (row_input \<lparr>defaultPublish = None, defaultDiscount = None\<rparr> (mapRow listedRow))
       = publish (mapRow listedRow)
   \<and> discount (row_input \<lparr>defaultPublish = None, defaultDiscount = None\<rparr> (mapRow listedRow))
       = discount (mapRow listedRow)"
proof -
  have m: "mapRow listedRow \<in> set (mapToCabinetProduct [listedRow])"
    by (simp add: mapToCabinetProduct_def listedRow_def truthy_def)
  show ?thesis
    using m quarter_off
      C3_create_input [OF m, of "\<lparr>defaultPublish = Some True, defaultDiscount = Some (Fin 25)\<rparr>"]
      C3_create_input [OF m, of "\<lparr>defaultPublish = None, defaultDiscount = None\<rparr>"]
    by (simp add: listed_price)
qed

subsection \<open>C4: sequential batches\<close>

text \<open>
  Claim C4. For every session with \<open>n > 0\<close> mapped records, a valid form and every batch size
  \<open>b > 0\<close>, the importer returns, and its trace is the concatenation of the events of
  \<open>ceil(n / b)\<close> batches in order, batch \<open>k\<close> covering the contiguous records \<open>k * b\<close> up to
  \<open>min n (k * b + b)\<close>. So exactly \<open>n\<close> create-operation calls are issued, one per record in
  order and each with the input of its record; every batch is non-empty and has at most \<open>b\<close>
  records, and every batch but the last has exactly \<open>b\<close>; and whenever a call is issued, the
  calls of all records of earlier batches have already settled.
\<close>

theorem C4_sequential_batches:
  assumes "\<not> form_invalid (importForm c)" and "mappedRows c \<noteq> []" and "0 < b"
  shows "\<exists>c' tr. importRows create b c = Some (c', tr)
     \<and> tr = concat (map (batchEvents (importForm c) (mappedRows c) b)
                      [0 ..< batchCount (length (mappedRows c)) b])
     \<and> filter is_issue tr =
         map (\<lambda>j. Issue j (row_input (importForm c) (mappedRows c ! j))) [0 ..< length (mappedRows c)]
     \<and> length (filter is_issue tr) = length (mappedRows c)
     \<and> (\<forall>k < batchCount (length (mappedRows c)) b.
          0 < min (length (mappedRows c)) (k * b + b) - k * b
          \<and> min (length (mappedRows c)) (k * b + b) - k * b \<le> b
          \<and> (Suc k < batchCount (length (mappedRows c)) b \<longrightarrow>
               min (length (mappedRows c)) (k * b + b) - k * b = b))
     \<and> (\<forall>pre j x post j'. tr = pre @ Issue j x # post \<and> j' div b < j div b \<longrightarrow> Settle j' \<in> set pre)"
proof -
  let ?tr = "concat (map (batchEvents (importForm c) (mappedRows c) b)
                      [0 ..< batchCount (length (mappedRows c)) b])"
  obtain c' where run: "importRows create b c = Some (c', ?tr)"
    using importRows_run [OF assms, where create = create] by blast
  have issues: "filter is_issue ?tr =
      map (\<lambda>j. Issue j (row_input (importForm c) (mappedRows c ! j))) [0 ..< length (mappedRows c)]"
    using assms(3) by (rule issues_of_run)
  have order: "\<forall>pre j x post j'. ?tr = pre @ Issue j x # post \<and> j' div b < j div b \<longrightarrow> Settle j' \<in> set pre"
    using ordered_prefix [OF assms(3)] by blast
  have sizes: "\<forall>k < batchCount (length (mappedRows c)) b.
          0 < min (length (mappedRows c)) (k * b + b) - k * b
          \<and> min (length (mappedRows c)) (k * b + b) - k * b \<le> b
          \<and> (Suc k < batchCount (length (mappedRows c)) b \<longrightarrow>
               min (length (mappedRows c)) (k * b + b) - k * b = b)"
    using batch_sizes [OF assms(3)] by blast
  from issues have "length (filter is_issue ?tr) = length (mappedRows c)"
    by simp
  with run issues order sizes show ?thesis by blast
qed

text \<open>
  Three records in batches of two: two batches, three calls.
\<close>

theorem C4_sequential_batches_witness:
  "\<not> form_invalid (importForm (sampleSession 3)) \<and> mappedRows (sampleSession 3) \<noteq> [] \<and> (0::nat) < 2
   \<and> batchCount 3 2 = 2
   \<and> (\<exists>c' tr. importRows (\<lambda>j x. Some ()) 2 (sampleSession 3) = Some (c', tr)
         \<and> tr = concat (map (batchEvents (importForm (sampleSession 3)) (mappedRows (sampleSession 3)) 2)
                          [0 ..< 2])
         \<and> length (filter is_issue tr) = 3)"
proof -
  have v: "\<not> form_invalid (importForm (sampleSession 3))" by (rule sample_valid)
  have r: "mappedRows (sampleSession 3) \<noteq> []" by (simp add: sample_rows)
  have b: "(0::nat) < 2" by simp
  have n: "batchCount 3 2 = 2" by (simp add: batchCount_def)
  have l: "length (mappedRows (sampleSession 3)) = 3" by (simp add: sample_rows)
  from C4_sequential_batches [OF v r b, of "\<lambda>j x. Some ()", unfolded l n]
  obtain c' tr where "importRows (\<lambda>j x. Some ()) 2 (sampleSession 3) = Some (c', tr)"
    "tr = concat (map (batchEvents (importForm (sampleSession 3)) (mappedRows (sampleSession 3)) 2)
                    [0 ..< 2])"
    "length (filter is_issue tr) = 3"
    by (elim exE conjE) (rule that)
  then show ?thesis using v r b n by blast
qed

subsection \<open>C5: the progress value\<close>

text \<open>
  Claim C5, as amended. During a run over \<open>n > 0\<close> records with batch size \<open>b > 0\<close>, one progress
  value is written per batch. After batch \<open>k\<close> settles, with \<open>j = min n (k * b + b)\<close> records
  processed, the expression \<^verbatim>\<open>j / n * 100\<close> evaluates to a finite double \<open>q\<close>, which differs
  from the exact percentage by at most \<open>1 / 2 ^ 45\<close>, and the progress value written is the
  integer \<open>floor(q + 1/2)\<close>. For \<open>n < 2 ^ 32\<close>, the bound on the length of an array of the
  source language, this is the exactly rounded percentage \<open>round((j / n) * 100)\<close>, except that
  it may be one less when the exact percentage lies halfway between two integers. The sequence
  of progress values is non-decreasing, stays within [0, 100], and ends with exactly 100,
  which is also the progress of the final session. For \<open>n = 25\<close> and \<open>b = 10\<close> the sequence
  is 40, 80, 100; for \<open>n = 400\<close> and \<open>b = 10\<close> the value written after batch number 22
  (counted from 0), with 230 records processed, is 57.
\<close>

theorem C5_progress_double_rounding:
  assumes "\<not> form_invalid (importForm c)" and "mappedRows c \<noteq> []" and "0 < b"
  shows "\<exists>c' tr. importRows create b c = Some (c', tr)
     \<and> length (progress_values tr) = batchCount (length (mappedRows c)) b
     \<and> (\<forall>k < batchCount (length (mappedRows c)) b.
           fmul (fdiv (Fin (real (processed (length (mappedRows c)) b k)))
                      (Fin (real (length (mappedRows c)))))
                (Fin 100)
             = Fin (percent (length (mappedRows c)) (processed (length (mappedRows c)) b k))
         \<and> progress_values tr ! k
             = Fin (of_int \<lfloor>percent (length (mappedRows c)) (processed (length (mappedRows c)) b k) + 1 / 2\<rfloor>)
         \<and> \<bar>percent (length (mappedRows c)) (processed (length (mappedRows c)) b k)
              - real (processed (length (mappedRows c)) b k) / real (length (mappedRows c)) * 100\<bar>
             \<le> 1 / 2 ^ 45
         \<and> (length (mappedRows c) < 2 ^ 32 \<longrightarrow>
               progress_values tr ! k
                 = Fin (of_int (exactPercent (length (mappedRows c)) (processed (length (mappedRows c)) b k)))
             \<or> halfway (length (mappedRows c)) (processed (length (mappedRows c)) b k)
               \<and> progress_values tr ! k
                   = Fin (of_int (exactPercent (length (mappedRows c))
                                    (processed (length (mappedRows c)) b k) - 1))))
     \<and> (\<forall>k k'. k \<le> k' \<and> k' < length (progress_values tr) \<longrightarrow>
           num_le (progress_values tr ! k) (progress_values tr ! k'))
     \<and> (\<forall>p \<in> set (progress_values tr). num_le (Fin 0) p \<and> num_le p (Fin 100))
     \<and> progress_values tr \<noteq> [] \<and> last (progress_values tr) = Fin 100
     \<and> importProgress c' = Fin 100
     \<and> (length (mappedRows c) = 25 \<and> b = 10 \<longrightarrow> progress_values tr = [Fin 40, Fin 80, Fin 100])
     \<and> (length (mappedRows c) = 400 \<and> b = 10 \<longrightarrow> progress_values tr ! 22 = Fin 57)"
proof -
  let ?n = "length (mappedRows c)"
  let ?nb = "batchCount ?n b"
  let ?tr = "concat (map (batchEvents (importForm c) (mappedRows c) b) [0 ..< ?nb])"
  let ?P = "\<lambda>k. progressAt ?n (min ?n (k * b + b))"
  have n: "0 < ?n" using assms(2) by simp
  then have nb: "0 < ?nb" using batchCount_less_iff [OF assms(3), of 0 ?n] by simp
  obtain c' where run: "importRows create b c = Some (c', ?tr)"
    and prog: "importProgress c' = progressAt ?n ?n"
    using importRows_run [OF assms, where create = create] by (auto simp add: Let_def)
  have vals: "progress_values ?tr = map ?P [0 ..< ?nb]" by (rule progress_of_run)
  have len: "length (progress_values ?tr) = ?nb" by (simp add: vals)
  have each: "fmul (fdiv (Fin (real (processed ?n b k))) (Fin (real ?n))) (Fin 100)
             = Fin (percent ?n (processed ?n b k))
         \<and> progress_values ?tr ! k = Fin (of_int \<lfloor>percent ?n (processed ?n b k) + 1 / 2\<rfloor>)
         \<and> \<bar>percent ?n (processed ?n b k) - real (processed ?n b k) / real ?n * 100\<bar> \<le> 1 / 2 ^ 45
         \<and> (?n < 2 ^ 32 \<longrightarrow>
               progress_values ?tr ! k = Fin (of_int (exactPercent ?n (processed ?n b k)))
             \<or> halfway ?n (processed ?n b k)
               \<and> progress_values ?tr ! k = Fin (of_int (exactPercent ?n (processed ?n b k) - 1)))"
    if "k < ?nb" for k
  proof -
    have j: "processed ?n b k \<le> ?n" by (simp add: processed_def)
    have v: "progress_values ?tr ! k = progressAt ?n (processed ?n b k)"
      using that by (rule progress_run_nth)
    have "progressAt ?n (processed ?n b k) = Fin (of_int \<lfloor>percent ?n (processed ?n b k) + 1 / 2\<rfloor>)"
      using percent_range [OF n j] by simp
    moreover note percent_value [OF n j] percent_err [OF n j]
    moreover have "progressAt ?n (processed ?n b k) = Fin (of_int (exactPercent ?n (processed ?n b k)))
             \<or> halfway ?n (processed ?n b k)
               \<and> progressAt ?n (processed ?n b k) = Fin (of_int (exactPercent ?n (processed ?n b k) - 1))"
      if "?n < 2 ^ 32" using progressAt_exact [OF n j that] .
    ultimately show ?thesis unfolding v by blast
  qed
  have mono: "num_le (progress_values ?tr ! k) (progress_values ?tr ! k')"
    if "k \<le> k'" "k' < length (progress_values ?tr)" for k k'
  proof -
    from that have "k < ?nb" "k' < ?nb" by (simp_all add: vals)
    moreover have "min ?n (k * b + b) \<le> min ?n (k' * b + b)"
      using that(1) by (simp add: min.coboundedI2 mult_le_mono1)
    ultimately show ?thesis using n by (simp add: vals progressAt_mono)
  qed
  have range: "num_le (Fin 0) p \<and> num_le p (Fin 100)" if "p \<in> set (progress_values ?tr)" for p
    using that n by (auto simp add: vals progressAt_range)
  have "\<not> ?nb * b < ?n" using batchCount_less_iff [OF assms(3), of ?nb ?n] by simp
  moreover have "?nb - 1 + 1 = ?nb" using nb by simp
  ultimately have "min ?n ((?nb - 1) * b + b) = ?n"
    by (metis add.commute min.absorb1 mult_Suc not_less Suc_eq_plus1)
  then have "last (map ?P [0 ..< ?nb]) = progressAt ?n ?n"
    using nb by (simp add: last_map)
  then have last: "progress_values ?tr \<noteq> [] \<and> last (progress_values ?tr) = Fin 100"
    using nb n by (simp add: vals progressAt_full)
  have ex: "progress_values ?tr = [Fin 40, Fin 80, Fin 100]" if "?n = 25" "b = 10"
  proof -
    have "batchCount 25 10 = 3" by (simp add: batchCount_def)
    moreover have "[0 ..< 3] = [0, 1, 2]" by (simp add: upt_rec)
    ultimately have "map ?P [0 ..< ?nb] = [progressAt 25 10, progressAt 25 20, progressAt 25 25]"
      using that by simp
    then show ?thesis
      unfolding vals using progressAt_full [of 25] by (simp add: progress_25)
  qed
  have ex2: "progress_values ?tr ! 22 = Fin 57" if "?n = 400" "b = 10"
  proof -
    have "22 < batchCount 400 10" by (simp add: batchCount_def)
    then have "22 < ?nb" using that by simp
    then have "progress_values ?tr ! 22 = progressAt ?n (processed ?n b 22)"
      by (rule progress_run_nth)
    also have "\<dots> = progressAt 400 230" using that by (simp add: processed_def)
    finally show ?thesis by (simp only: progress_400)
  qed
  have fin: "importProgress c' = Fin 100" using prog n by (simp add: progressAt_full)
  show ?thesis
    apply (rule exI [of _ c'])
    apply (rule exI [of _ ?tr])
    apply (intro conjI allI impI ballI)
    subgoal by (rule run)
    subgoal by (rule len)
    subgoal for k using each [of k] by (simp only:)
    subgoal for k using each [of k] by (simp only:)
    subgoal for k using each [of k] by (simp only:)
    subgoal for k using each [of k] by blast
    subgoal for k k' using mono [of k k'] by blast
    subgoal for p using range [of p] by blast
    subgoal for p using range [of p] by blast
    subgoal using last by blast
    subgoal using last by blast
    subgoal by (rule fin)
    subgoal using ex by blast
    subgoal using ex2 by blast
    done
qed

text \<open>
  The claim as stated fails at a session of 400 records, every call succeeding: when batch
  number 22 (counted from 0) has settled, 230 records are processed and the exact percentage is 57.5, which rounds to
  58. The double quotient of 230 and 400, multiplied by 100, is the double just below 57.5,
  and \<open>onImportRows\<close> writes 57.
\<close>

theorem C5_exact_rounding_counterexample:
  "length (mappedRows (sampleSession 400)) = 400 \<and> processed 400 batchSize 22 = 230
   \<and> progressOf (onImportRows accepting (sampleSession 400)) ! 22 = Fin 57
   \<and> exactPercent 400 230 = 58
   \<and> progressOf (onImportRows accepting (sampleSession 400)) ! 22 \<noteq> Fin (of_int (exactPercent 400 230))"
proof -
  have l: "length (mappedRows (sampleSession 400)) = 400" by (simp add: sample_rows)
  have p: "processed 400 batchSize 22 = 230" by (simp add: processed_def batchSize_def)
  obtain c' where run: "onImportRows accepting (sampleSession 400)
          = Some (c', concat (map (batchEvents (importForm (sampleSession 400))
                                     (mappedRows (sampleSession 400)) 10) [0 ..< 40]))"
    using sample_run_400 by blast
  have "(22::nat) < 40" by simp
  from progress_run_nth [OF this, of "importForm (sampleSession 400)" "mappedRows (sampleSession 400)" 10]
  have "progressOf (onImportRows accepting (sampleSession 400)) ! 22 = progressAt 400 (processed 400 10 22)"
    unfolding run l by (simp add: progressOf_def)
  also have "\<dots> = Fin 57" using p by (simp add: batchSize_def progress_400)
  finally have v: "progressOf (onImportRows accepting (sampleSession 400)) ! 22 = Fin 57" .
  have e: "exactPercent 400 230 = 58" by (rule exact_400)
  show ?thesis unfolding v e using l p by simp
qed

text \<open>
  At 400 records in batches of ten, where the value after batch number 22 is one less than the
  exactly rounded percentage; at 16 records, where the double after the first batch is
  62.5 itself and the value written is 63; and at 25 records.
\<close>

theorem C5_progress_double_rounding_witness:
  "\<not> form_invalid (importForm (sampleSession 400)) \<and> mappedRows (sampleSession 400) \<noteq> []
   \<and> (0::nat) < 10 \<and> length (mappedRows (sampleSession 400)) = 400 \<and> (400::nat) < 2 ^ 32
   \<and> (22::nat) < batchCount 400 10 \<and> processed 400 10 22 = 230
   \<and> halfway 400 230 \<and> exactPercent 400 230 = 58
   \<and> (\<exists>c' tr. importRows accepting 10 (sampleSession 400) = Some (c', tr)
         \<and> length (progress_values tr) = 40
         \<and> progress_values tr ! 22 = Fin 57
         \<and> progress_values tr ! 22 = Fin (of_int (exactPercent 400 230 - 1))
         \<and> last (progress_values tr) = Fin 100 \<and> importProgress c' = Fin 100)
   \<and> length (mappedRows (sampleSession 16)) = 16 \<and> (0::nat) < batchCount 16 10
   \<and> processed 16 10 0 = 10 \<and> percent 16 10 = 125 / 2
   \<and> (\<exists>c' tr. importRows accepting 10 (sampleSession 16) = Some (c', tr)
         \<and> length (progress_values tr) = 2
         \<and> progress_values tr ! 0 = Fin 63
         \<and> last (progress_values tr) = Fin 100)
   \<and> length (mappedRows (sampleSession 25)) = 25
   \<and> (\<exists>c' tr. importRows accepting 10 (sampleSession 25) = Some (c', tr)
         \<and> progress_values tr = [Fin 40, Fin 80, Fin 100]
         \<and> importProgress c' = Fin 100)"
proof -
  have v: "\<not> form_invalid (importForm (sampleSession k))" for k by (rule sample_valid)
  have r: "mappedRows (sampleSession 400) \<noteq> []" "mappedRows (sampleSession 16) \<noteq> []"
    "mappedRows (sampleSession 25) \<noteq> []" by (simp_all add: sample_rows)
  have b: "(0::nat) < 10" by simp
  have l: "length (mappedRows (sampleSession 400)) = 400" "length (mappedRows (sampleSession 16)) = 16"
    "length (mappedRows (sampleSession 25)) = 25" by (simp_all add: sample_rows)
  have nb: "batchCount 400 10 = 40" "batchCount 16 10 = 2" by (simp_all add: batchCount_def)
  have pr: "processed 400 10 22 = 230" "processed 16 10 0 = 10" by (simp_all add: processed_def)
  note h = exact_400
  from C5_progress_double_rounding [OF v r(1) b, of accepting, unfolded l nb]
  obtain c1 tr1 where a: "importRows accepting 10 (sampleSession 400) = Some (c1, tr1)"
    "length (progress_values tr1) = 40"
    "last (progress_values tr1) = Fin 100" "importProgress c1 = Fin 100"
    "(400::nat) = 400 \<and> (10::nat) = 10 \<longrightarrow> progress_values tr1 ! 22 = Fin 57"
    by (elim exE conjE) (rule that)
  from C5_progress_double_rounding [OF v r(2) b, of accepting, unfolded l nb]
  obtain c2 tr2 where c: "importRows accepting 10 (sampleSession 16) = Some (c2, tr2)"
    "length (progress_values tr2) = 2"
    "\<forall>k<2. fmul (fdiv (Fin (real (processed 16 10 k))) (Fin (real 16))) (Fin 100)
             = Fin (percent 16 (processed 16 10 k))
         \<and> progress_values tr2 ! k = Fin (of_int \<lfloor>percent 16 (processed 16 10 k) + 1 / 2\<rfloor>)
         \<and> \<bar>percent 16 (processed 16 10 k) - real (processed 16 10 k) / real 16 * 100\<bar> \<le> 1 / 2 ^ 45
         \<and> ((16::nat) < 2 ^ 32 \<longrightarrow>
               progress_values tr2 ! k = Fin (of_int (exactPercent 16 (processed 16 10 k)))
             \<or> halfway 16 (processed 16 10 k)
               \<and> progress_values tr2 ! k = Fin (of_int (exactPercent 16 (processed 16 10 k) - 1)))"
    "last (progress_values tr2) = Fin 100"
    by (elim exE conjE) (rule that)
  from c(3) have "progress_values tr2 ! 0 = Fin (of_int \<lfloor>percent 16 (processed 16 10 0) + 1 / 2\<rfloor>)"
    by simp
  then have d: "progress_values tr2 ! 0 = Fin 63" unfolding pr percent_16 by simp
  from C5_progress_double_rounding [OF v r(3) b, of accepting, unfolded l]
  obtain c3 tr3 where e: "importRows accepting 10 (sampleSession 25) = Some (c3, tr3)"
    "importProgress c3 = Fin 100"
    "(25::nat) = 25 \<and> (10::nat) = 10 \<longrightarrow> progress_values tr3 = [Fin 40, Fin 80, Fin 100]"
    by (elim exE conjE) (rule that)
  have x1: "\<exists>c' tr. importRows accepting 10 (sampleSession 400) = Some (c', tr)
         \<and> length (progress_values tr) = 40
         \<and> progress_values tr ! 22 = Fin 57
         \<and> progress_values tr ! 22 = Fin (of_int (exactPercent 400 230 - 1))
         \<and> last (progress_values tr) = Fin 100 \<and> importProgress c' = Fin 100"
    using a by (simp add: h)
  have x2: "\<exists>c' tr. importRows accepting 10 (sampleSession 16) = Some (c', tr)
         \<and> length (progress_values tr) = 2
         \<and> progress_values tr ! 0 = Fin 63
         \<and> last (progress_values tr) = Fin 100"
    using c(1,2,4) d by simp
  have x3: "\<exists>c' tr. importRows accepting 10 (sampleSession 25) = Some (c', tr)
         \<and> progress_values tr = [Fin 40, Fin 80, Fin 100]
         \<and> importProgress c' = Fin 100"
    using e by simp
  show ?thesis
    using v [of 400] r(1) l nb pr h percent_16 x1 x2 x3 by simp
qed

subsection \<open>C6: failures of single records\<close>

text \<open>
  Claim C6. For every run of \<open>onImportRows\<close> on a session with mapped records and a valid
  form, whatever the create-operation does for each record: a rejected call counts as
  \<^verbatim>\<open>null\<close> and aborts nothing, the run returns with the call of every record issued and
  \<open>isImporting\<close> reset. The final imported-count is the number of records whose call
  succeeded; it is at most the number of records, with equality if and only if every call
  succeeded, and it is one less when exactly one call failed. On equality the run ends with
  the success message and no error message; on any shortfall it ends with the partial-success
  message ``Imported i of n rows. ...'' as its error message and no success message.
\<close>

theorem C6_failure_accounting:
  assumes "\<not> form_invalid (importForm c)" and "mappedRows c \<noteq> []"
  shows "\<exists>c' tr. onImportRows create c = Some (c', tr)
     \<and> filter is_issue tr =
         map (\<lambda>j. Issue j (row_input (importForm c) (mappedRows c ! j))) [0 ..< length (mappedRows c)]
     \<and> \<not> isImporting c'
     \<and> importedCount c' =
         card {j. j < length (mappedRows c) \<and>
                  create j (row_input (importForm c) (mappedRows c ! j)) \<noteq> None}
     \<and> importedCount c' \<le> length (mappedRows c)
     \<and> (importedCount c' = length (mappedRows c) \<longleftrightarrow>
          (\<forall>j < length (mappedRows c). create j (row_input (importForm c) (mappedRows c ! j)) \<noteq> None))
     \<and> (\<forall>f < length (mappedRows c).
          create f (row_input (importForm c) (mappedRows c ! f)) = None \<and>
          (\<forall>j < length (mappedRows c). j \<noteq> f \<longrightarrow>
             create j (row_input (importForm c) (mappedRows c ! j)) \<noteq> None) \<longrightarrow>
          importedCount c' = length (mappedRows c) - 1)
     \<and> (importedCount c' = length (mappedRows c) \<longrightarrow>
          successMessage c' =
            Some (''Successfully imported '' @ showNat (length (mappedRows c)) @ '' rows!'') \<and>
          errorMessage c' = None)
     \<and> (importedCount c' \<noteq> length (mappedRows c) \<longrightarrow>
          errorMessage c' =
            Some (''Imported '' @ showNat (importedCount c') @ '' of '' @
                  showNat (length (mappedRows c)) @ '' rows. Check console for errors.'') \<and>
          successMessage c' = None)"
proof -
  let ?n = "length (mappedRows c)"
  let ?cnt = "succeeded create (importForm c) (mappedRows c) 0 ?n"
  let ?tr = "concat (map (batchEvents (importForm c) (mappedRows c) batchSize) [0 ..< batchCount ?n batchSize])"
  have b: "0 < batchSize" by (simp add: batchSize_def)
  obtain c' where run: "onImportRows create c = Some (c', ?tr)"
    and fields: "importedCount c' = ?cnt" "\<not> isImporting c'"
      "?cnt = ?n \<longrightarrow> successMessage c' = Some (''Successfully imported '' @ showNat ?n @ '' rows!'') \<and>
                     errorMessage c' = None"
      "?cnt \<noteq> ?n \<longrightarrow> errorMessage c' = Some (''Imported '' @ showNat ?cnt @ '' of '' @ showNat ?n @
                                                 '' rows. Check console for errors.'') \<and>
                     successMessage c' = None"
    using importRows_run [OF assms b, where create = create]
    by (auto simp add: onImportRows_def Let_def)
  have issues: "filter is_issue ?tr =
      map (\<lambda>j. Issue j (row_input (importForm c) (mappedRows c ! j))) [0 ..< ?n]"
    using b by (rule issues_of_run)
  have one: "\<forall>f < ?n.
          create f (row_input (importForm c) (mappedRows c ! f)) = None \<and>
          (\<forall>j < ?n. j \<noteq> f \<longrightarrow> create j (row_input (importForm c) (mappedRows c ! j)) \<noteq> None) \<longrightarrow>
          ?cnt = ?n - 1"
    using succeeded_one_failure [of _ ?n create "importForm c" "mappedRows c"] by blast
  show ?thesis
    using run issues one fields succeeded_le [of create "importForm c" "mappedRows c" ?n]
      succeeded_all [of create "importForm c" "mappedRows c" ?n]
      succeeded_card [of create "importForm c" "mappedRows c" ?n]
    by (intro exI [of _ c'] exI [of _ ?tr]) simp
qed

text \<open>
  Three records: when the call for record 1 is rejected the run reports 2 of 3; when every
  call succeeds it reports full success.
\<close>

theorem C6_failure_accounting_witness:
  "\<not> form_invalid (importForm (sampleSession 3)) \<and> mappedRows (sampleSession 3) \<noteq> []
   \<and> (\<exists>c' tr. onImportRows (\<lambda>j x. if j = 1 then None else Some ()) (sampleSession 3) = Some (c', tr)
         \<and> length (filter is_issue tr) = 3
         \<and> importedCount c' = 2
         \<and> errorMessage c' = Some ''Imported 2 of 3 rows. Check console for errors.''
         \<and> successMessage c' = None)
   \<and> (\<exists>c' tr. onImportRows (\<lambda>j x. Some ()) (sampleSession 3) = Some (c', tr)
         \<and> importedCount c' = 3
         \<and> successMessage c' = Some ''Successfully imported 3 rows!''
         \<and> errorMessage c' = None)"
proof -
  have v: "\<not> form_invalid (importForm (sampleSession 3))" by (rule sample_valid)
  have r: "mappedRows (sampleSession 3) \<noteq> []" by (simp add: sample_rows)
  have l: "length (mappedRows (sampleSession 3)) = 3" by (simp add: sample_rows)
  have s: "showNat 2 = ''2''" "showNat 3 = ''3''" by (simp_all add: showNat.simps)
  let ?create = "\<lambda>(j::nat) (x::cabinet_product). if j = 1 then None else Some ()"
  from C6_failure_accounting [OF v r, of ?create]
  obtain c' tr where a: "onImportRows ?create (sampleSession 3) = Some (c', tr)"
    "filter is_issue tr = map (\<lambda>j. Issue j (row_input (importForm (sampleSession 3))
                                      (mappedRows (sampleSession 3) ! j))) [0 ..< 3]"
    "\<forall>f < 3. ?create f (row_input (importForm (sampleSession 3)) (mappedRows (sampleSession 3) ! f)) = None \<and>
          (\<forall>j < 3. j \<noteq> f \<longrightarrow>
             ?create j (row_input (importForm (sampleSession 3)) (mappedRows (sampleSession 3) ! j)) \<noteq> None) \<longrightarrow>
          importedCount c' = 3 - 1"
    "importedCount c' \<noteq> 3 \<longrightarrow>
          errorMessage c' = Some (''Imported '' @ showNat (importedCount c') @ '' of '' @
                  showNat 3 @ '' rows. Check console for errors.'') \<and> successMessage c' = None"
    unfolding l by (elim exE conjE) (rule that)
  from a(3) [THEN spec, of 1] have cnt: "importedCount c' = 2" by simp
  from a(2) have "length (filter is_issue tr) = 3" by simp
  with a(1,4) cnt have first: "\<exists>c' tr. onImportRows ?create (sampleSession 3) = Some (c', tr)
         \<and> length (filter is_issue tr) = 3
         \<and> importedCount c' = 2
         \<and> errorMessage c' = Some ''Imported 2 of 3 rows. Check console for errors.''
         \<and> successMessage c' = None"
    by (simp add: s)
  let ?ok = "\<lambda>(j::nat) (x::cabinet_product). Some ()"
  from C6_failure_accounting [OF v r, of ?ok]
  obtain d' tr' where b: "onImportRows ?ok (sampleSession 3) = Some (d', tr')"
    "importedCount d' = 3 \<longleftrightarrow>
          (\<forall>j < 3. ?ok j (row_input (importForm (sampleSession 3)) (mappedRows (sampleSession 3) ! j)) \<noteq> None)"
    "importedCount d' = 3 \<longrightarrow>
          successMessage d' = Some (''Successfully imported '' @ showNat 3 @ '' rows!'') \<and>
          errorMessage d' = None"
    unfolding l by (elim exE conjE) (rule that)
  from b have second: "\<exists>c' tr. onImportRows ?ok (sampleSession 3) = Some (c', tr)
         \<and> importedCount c' = 3
         \<and> successMessage c' = Some ''Successfully imported 3 rows!''
         \<and> errorMessage c' = None"
    by (simp add: s)
  from first second v r show ?thesis by blast
qed

subsection \<open>C7: the preconditions of a run\<close>

text \<open>
  Claim C7. If the mapped-record sequence is empty, or the discount of the defaults
  configuration is a number outside [0, 100] (which makes the form invalid), then
  \<open>onImportRows\<close> refuses to run: it issues no create-operation call (the trace is empty)
  and the session it returns is the session it was given with the error message set to one
  fixed text, every other field, progress and imported-count among them, unchanged.
\<close>

theorem C7_precondition_refusal:
  assumes "mappedRows c = [] \<or>
           (\<exists>d. defaultDiscount (importForm c) = Some d \<and> (num_lt d (Fin 0) \<or> num_lt (Fin 100) d))"
  shows "onImportRows create c =
           Some (c\<lparr>errorMessage := Some ''Invalid form or no rows to import.''\<rparr>, [])"
  using assms by (auto simp add: onImportRows_def importRows_def form_invalid_def)

text \<open>
  At the empty session, and at a session of three records whose discount override is 150.
\<close>

theorem C7_precondition_refusal_witness:
  "mappedRows (sampleSession 0) = []
   \<and> onImportRows (\<lambda>j x. Some ()) (sampleSession 0)
       = Some ((sampleSession 0)\<lparr>errorMessage := Some ''Invalid form or no rows to import.''\<rparr>, [])
   \<and> defaultDiscount (importForm ((sampleSession 3)\<lparr>importForm :=
        \<lparr>defaultPublish = None, defaultDiscount = Some (Fin 150)\<rparr>\<rparr>)) = Some (Fin 150)
   \<and> num_lt (Fin 100) (Fin 150)
   \<and> onImportRows (\<lambda>j x. Some ())
        ((sampleSession 3)\<lparr>importForm := \<lparr>defaultPublish = None, defaultDiscount = Some (Fin 150)\<rparr>\<rparr>)
       = Some ((sampleSession 3)\<lparr>importForm := \<lparr>defaultPublish = None, defaultDiscount = Some (Fin 150)\<rparr>,
                                  errorMessage := Some ''Invalid form or no rows to import.''\<rparr>, [])"
  using C7_precondition_refusal [of "sampleSession 0" "\<lambda>j x. Some ()"]
    C7_precondition_refusal [of "(sampleSession 3)\<lparr>importForm := \<lparr>defaultPublish = None, defaultDiscount = Some (Fin 150)\<rparr>\<rparr>"
                   "\<lambda>j x. Some ()"]
  by (simp add: sampleSession_def)

subsection \<open>C8: the two SKUs\<close>

text \<open>
  Claim C8. For every raw row, \<open>wSKU\<close> and \<open>vSKU\<close> of the mapped record are functions of the
  row's SKU string alone and differ only in their prefix: for a SKU \<^verbatim>\<open>AZ-\<close>\<open>t\<close> they are
  \<^verbatim>\<open>W-\<close>\<open>t\<close> and \<^verbatim>\<open>V-\<close>\<open>t\<close>, for any other SKU both are the SKU itself, and two rows with the same SKU
  field get the same pair. The row with SKU \<^verbatim>\<open>AZ-123\<close> and name
  \<^verbatim>\<open>Acme Shaker Wall Cabinet 9W X 30H\<close> maps to a record with \<open>wSKU\<close> \<^verbatim>\<open>W-123\<close>, \<open>vSKU\<close> \<^verbatim>\<open>V-123\<close>,
  width 9 and height 30.
\<close>

theorem C8_sku_pair:
  "(\<forall>t. row ''SKU'' = Some (''AZ-'' @ t) \<longrightarrow>
        wSKU (mapRow row) = ''W-'' @ t \<and> vSKU (mapRow row) = ''V-'' @ t)
   \<and> (\<forall>s. row ''SKU'' = Some s \<and> \<not> prefix ''AZ-'' s \<longrightarrow>
        wSKU (mapRow row) = s \<and> vSKU (mapRow row) = s)
   \<and> (row ''SKU'' = row' ''SKU'' \<longrightarrow>
        wSKU (mapRow row) = wSKU (mapRow row') \<and> vSKU (mapRow row) = vSKU (mapRow row'))
   \<and> mapToCabinetProduct
        [[''SKU'' \<mapsto> ''AZ-123'', ''Name'' \<mapsto> ''Acme Shaker Wall Cabinet 9W X 30H'']]
       = [mapRow [''SKU'' \<mapsto> ''AZ-123'', ''Name'' \<mapsto> ''Acme Shaker Wall Cabinet 9W X 30H'']]
   \<and> wSKU (mapRow [''SKU'' \<mapsto> ''AZ-123'', ''Name'' \<mapsto> ''Acme Shaker Wall Cabinet 9W X 30H'']) = ''W-123''
   \<and> vSKU (mapRow [''SKU'' \<mapsto> ''AZ-123'', ''Name'' \<mapsto> ''Acme Shaker Wall Cabinet 9W X 30H'']) = ''V-123''
   \<and> width (mapRow [''SKU'' \<mapsto> ''AZ-123'', ''Name'' \<mapsto> ''Acme Shaker Wall Cabinet 9W X 30H'']) = Fin 9
   \<and> height (mapRow [''SKU'' \<mapsto> ''AZ-123'', ''Name'' \<mapsto> ''Acme Shaker Wall Cabinet 9W X 30H'']) = Fin 30"
proof -
  have sku: "wSKU (mapRow r) = replace False azPattern ''W-'' (or_str (r ''SKU'') []) \<and>
             vSKU (mapRow r) = replace False azPattern ''V-'' (or_str (r ''SKU'') [])" for r
    by (simp add: mapRow_def)
  have dims: "width (mapRow r) = row_width r \<and> height (mapRow r) = row_height r" for r
    by (simp add: mapRow_def)
  show ?thesis
    using sample_width [unfolded sampleRow_def] sample_height [unfolded sampleRow_def]
    by (auto simp add: sku dims replace_az or_str_def mapToCabinetProduct_def truthy_def)
qed

text \<open>
  At \<open>sampleRow\<close>, whose SKU has the source prefix, and at a row whose SKU has another prefix.
\<close>

theorem C8_sku_pair_witness:
  "sampleRow ''SKU'' = Some (''AZ-'' @ ''123'')
   \<and> wSKU (mapRow sampleRow) = ''W-'' @ ''123'' \<and> vSKU (mapRow sampleRow) = ''V-'' @ ''123''
   \<and> [''SKU'' \<mapsto> ''BX-7''] ''SKU'' = Some ''BX-7'' \<and> \<not> prefix ''AZ-'' ''BX-7''
   \<and> wSKU (mapRow [''SKU'' \<mapsto> ''BX-7'']) = ''BX-7'' \<and> vSKU (mapRow [''SKU'' \<mapsto> ''BX-7'']) = ''BX-7''
   \<and> width (mapRow sampleRow) = Fin 9 \<and> height (mapRow sampleRow) = Fin 30"
  using C8_sku_pair [of sampleRow sampleRow] C8_sku_pair [of "[''SKU'' \<mapsto> ''BX-7'']" sampleRow]
  by (simp add: sampleRow_def)

subsection \<open>C9: rows without a SKU\<close>

text \<open>
  Claim C9. For every sequence of raw rows, the mapper returns the records of exactly the
  rows whose SKU field is present and not empty, in order: every output record is the image
  of a row with a non-empty SKU, and a row whose SKU is missing or empty can be removed from
  the input without changing the output. The mapper has no error result: such a row is
  dropped silently. The upload handler stores the same records: after an accepted upload
  \<open>mappedRows\<close> is the mapper's output on the parsed rows.
\<close>

theorem C9_no_sku_no_record:
  "mapToCabinetProduct rows =
     map mapRow (filter (\<lambda>row. row ''SKU'' \<noteq> None \<and> row ''SKU'' \<noteq> Some []) rows)
   \<and> (\<forall>r \<in> set (mapToCabinetProduct rows).
        \<exists>row \<in> set rows. r = mapRow row \<and> row ''SKU'' \<noteq> None \<and> row ''SKU'' \<noteq> Some [])
   \<and> (row ''SKU'' = None \<or> row ''SKU'' = Some [] \<longrightarrow>
        mapToCabinetProduct (pre @ row # post) = mapToCabinetProduct (pre @ post))
   \<and> (suffix ''.csv'' name \<and> filter (\<lambda>e. fst e \<noteq> ''TooFewFields'') errors = [] \<longrightarrow>
        mappedRows (onFileUpload (Some name) (Complete rows errors) c) = mapToCabinetProduct rows)"
proof -
  have t: "truthy v \<longleftrightarrow> v \<noteq> None \<and> v \<noteq> Some []" for v
    by (cases v) (simp_all add: truthy_def)
  show ?thesis
    by (auto simp add: mapToCabinetProduct_def onFileUpload_def t Let_def)
qed

text \<open>
  At three rows, the second without a SKU field and the third with an empty one: one record.
\<close>

theorem C9_no_sku_no_record_witness:
  "(Map.empty :: raw_row) ''SKU'' = None
   \<and> mapToCabinetProduct [sampleRow, Map.empty, [''SKU'' \<mapsto> []]] = [mapRow sampleRow]
   \<and> (\<exists>row \<in> set [sampleRow, Map.empty, [''SKU'' \<mapsto> []]].
         mapRow sampleRow = mapRow row \<and> row ''SKU'' \<noteq> None \<and> row ''SKU'' \<noteq> Some [])
   \<and> mapToCabinetProduct ([sampleRow] @ Map.empty # [[''SKU'' \<mapsto> []]])
       = mapToCabinetProduct ([sampleRow] @ [[''SKU'' \<mapsto> []]])
   \<and> suffix ''.csv'' ''export.csv''
   \<and> mappedRows (onFileUpload (Some ''export.csv'')
                   (Complete [sampleRow, Map.empty, [''SKU'' \<mapsto> []]] [(''TooFewFields'', ''row 2'')])
                   (sampleSession 0))
       = [mapRow sampleRow]"
proof -
  let ?rows = "[sampleRow, Map.empty, [''SKU'' \<mapsto> []]]"
  note t = C9_no_sku_no_record [of ?rows Map.empty "[sampleRow]" "[[''SKU'' \<mapsto> []]]"
      "''export.csv''" "[(''TooFewFields'', ''row 2'')]" "sampleSession 0"]
  have s: "suffix ''.csv'' ''export.csv''" by (simp add: suffix_to_prefix)
  have m: "mapToCabinetProduct ?rows = [mapRow sampleRow]"
    by (simp add: mapToCabinetProduct_def truthy_def sampleRow_def)
  have e: "(Map.empty :: raw_row) ''SKU'' = None" by simp
  have f: "filter (\<lambda>e. fst e \<noteq> ''TooFewFields'') [(''TooFewFields'', ''row 2'')] = []" by simp
  from t have "\<forall>r \<in> set (mapToCabinetProduct ?rows).
         \<exists>row \<in> set ?rows. r = mapRow row \<and> row ''SKU'' \<noteq> None \<and> row ''SKU'' \<noteq> Some []"
    by (rule conjunct1 [OF conjunct2])
  then have "\<exists>row \<in> set ?rows.
         mapRow sampleRow = mapRow row \<and> row ''SKU'' \<noteq> None \<and> row ''SKU'' \<noteq> Some []"
    unfolding m by simp
  moreover from t e have "mapToCabinetProduct ([sampleRow] @ Map.empty # [[''SKU'' \<mapsto> []]])
       = mapToCabinetProduct ([sampleRow] @ [[''SKU'' \<mapsto> []]])"
    by blast
  moreover from t s f have "mappedRows (onFileUpload (Some ''export.csv'')
                   (Complete ?rows [(''TooFewFields'', ''row 2'')]) (sampleSession 0))
       = mapToCabinetProduct ?rows"
    by blast
  ultimately show ?thesis using e s m by (simp only: simp_thms)
qed

subsection \<open>C10: SKUs with another prefix\<close>

text \<open>
  Claim C10. For every raw row whose SKU is not empty and does not start with \<^verbatim>\<open>AZ-\<close>, the row
  is mapped, and \<open>wSKU\<close> and \<open>vSKU\<close> of its record both equal the SKU unchanged.
\<close>

theorem C10_other_prefix_unchanged:
  assumes "row ''SKU'' = Some s" and "s \<noteq> []" and "\<not> prefix ''AZ-'' s"
  shows "mapToCabinetProduct [row] = [mapRow row] \<and> wSKU (mapRow row) = s \<and> vSKU (mapRow row) = s"
  using assms by (simp add: mapToCabinetProduct_def truthy_def mapRow_def replace_az or_str_def)

text \<open>
  At a row with SKU \<^verbatim>\<open>BX-7\<close>.
\<close>

theorem C10_other_prefix_unchanged_witness:
  "[''SKU'' \<mapsto> ''BX-7''] ''SKU'' = Some ''BX-7'' \<and> ''BX-7'' \<noteq> [] \<and> \<not> prefix ''AZ-'' ''BX-7''
   \<and> mapToCabinetProduct [[''SKU'' \<mapsto> ''BX-7'']] = [mapRow [''SKU'' \<mapsto> ''BX-7'']]
   \<and> wSKU (mapRow [''SKU'' \<mapsto> ''BX-7'']) = ''BX-7''
   \<and> vSKU (mapRow [''SKU'' \<mapsto> ''BX-7'']) = ''BX-7''"
  using C10_other_prefix_unchanged [of "[''SKU'' \<mapsto> ''BX-7'']" "''BX-7''"] by simp

end
